theory Spec2Isabelle
  imports Complex_Main "HOL-Library.Multiset" "HOL-Library.Sublist" "HOL-Library.Word"
begin

section \<open>JavaScript library functions used by the code\<close>

text \<open>
  Numbers are modelled exactly: scores and vector components as \<open>real\<close>, indices, sizes
  and page numbers as \<open>int\<close>. Rounding, NaN and infinities of IEEE doubles are not part
  of the model. Strings are \<open>string\<close>; the characters are those of Latin-1.
\<close>

text \<open>
  Relative index of \<open>Array.prototype.slice\<close> and \<open>String.prototype.slice\<close>: a negative
  index counts from the end, and every index is clamped to the length.
\<close>

definition js_rel :: "int \<Rightarrow> nat \<Rightarrow> nat" where
  "js_rel k len = (if k < 0 then nat (max (int len + k) 0) else min (nat k) len)"

definition js_slice :: "int \<Rightarrow> int \<Rightarrow> 'a list \<Rightarrow> 'a list" where
  "js_slice s e xs =
     (let from = js_rel s (length xs); to = js_rel e (length xs)
      in take (to - from) (drop from xs))"

definition js_slice_from :: "int \<Rightarrow> 'a list \<Rightarrow> 'a list" where
  "js_slice_from s xs = drop (js_rel s (length xs)) xs"

text \<open>\<open>xs[i]\<close>: reading beyond the end of an array gives \<open>undefined\<close>.\<close>

definition nth_opt :: "'a list \<Rightarrow> nat \<Rightarrow> 'a option" where
  "nth_opt xs i = (if i < length xs then Some (xs ! i) else None)"

text \<open>
  \<open>Array.prototype.sort\<close> with a comparator. The sort is stable, and for a comparator
  that is a consistent ordering the result is the one stable arrangement; the insertion
  sort below computes it. \<open>cmp a b \<le> 0\<close> keeps \<open>a\<close> before \<open>b\<close>.
\<close>

fun insert_by :: "('a \<Rightarrow> 'a \<Rightarrow> real) \<Rightarrow> 'a \<Rightarrow> 'a list \<Rightarrow> 'a list" where
  "insert_by cmp x [] = [x]"
| "insert_by cmp x (y # ys) = (if cmp x y \<le> 0 then x # y # ys else y # insert_by cmp x ys)"

definition js_sort :: "('a \<Rightarrow> 'a \<Rightarrow> real) \<Rightarrow> 'a list \<Rightarrow> 'a list" where
  "js_sort cmp xs = foldr (insert_by cmp) xs []"

text \<open>
  JSON texts are modelled by their syntax trees: \<open>JSON.stringify\<close> builds the tree of a
  value (a property whose value is \<open>undefined\<close> is left out) and \<open>JSON.parse\<close> gives it
  back; printing and reading the characters is the runtime's work. An object is the
  list of its properties in order; reading a property takes the last one of that name.
\<close>

datatype json =
    JNull
  | JBool bool
  | JNum real
  | JStr string
  | JArr "json list"
  | JObj "(string \<times> json) list"

definition obj_get :: "(string \<times> json) list \<Rightarrow> string \<Rightarrow> json option" where
  "obj_get ps k = map_of (rev ps) k"

definition opt_prop :: "string \<Rightarrow> json option \<Rightarrow> (string \<times> json) list" where
  "opt_prop k v = (case v of None \<Rightarrow> [] | Some j \<Rightarrow> [(k, j)])"

definition int_of_num :: "real \<Rightarrow> int option" where
  "int_of_num r = (if r = of_int \<lfloor>r\<rfloor> then Some \<lfloor>r\<rfloor> else None)"

section \<open>Types (types/index.ts) and configuration (config/index.ts)\<close>

text \<open>
  The metadata of a chunk. \<open>page\<close> is optional in the source. The last four fields are
  read by \<open>addDocuments\<close> through \<open>as any\<close>; they hold a JSON value or are \<open>undefined\<close>.
\<close>

record metadata =
  source :: string
  page :: "int option"
  chunkIndex :: int
  totalChunks :: int
  documentType :: "json option"
  title :: "json option"
  fileSize :: "json option"
  fileName :: "json option"

record DocumentChunk =
  c_id :: string
  c_content :: string
  c_metadata :: metadata

record SearchResult =
  r_content :: string
  r_score :: real
  r_metadata :: metadata

record RagConfig =
  chunkSize :: int
  chunkOverlap :: int
  maxResults :: int
  similarityThreshold :: real

text \<open>The values the configuration takes when no environment variable is set.\<close>

definition default_config :: RagConfig where
  "default_config = \<lparr>chunkSize = 1000, chunkOverlap = 200, maxResults = 5,
     similarityThreshold = 7 / 10\<rparr>"

datatype error =
    ChunkSizeNotPositive
  | OverlapNotLessThanSize
  | SearchFailed
  | DeleteCollectionFailed
  | EmbeddingInitFailed
  | EmbeddingFailed
  | InitializationFailed
  | QueryFailed

section \<open>The persistent vector store (core/vector-db.ts)\<close>

text \<open>
  A stored record. \<open>addDocuments\<close> stores \<open>embeddings[i]\<close>, which is \<open>undefined\<close> when
  fewer vectors than chunks are passed: \<open>d_embedding\<close> is \<open>None\<close> then.
\<close>

record StoredDocument =
  d_id :: string
  d_content :: string
  d_embedding :: "real list option"
  d_metadata :: metadata

text \<open>
  A file of the storage directory either holds a JSON text or cannot be read or parsed.
  The directory is a flat listing of entries with their contents, in the order
  \<open>readdirSync\<close> reports them; the file of collection \<open>c\<close> is the entry \<open>c.json\<close>,
  which is what \<open>path.join (vectorDbPath, c + '.json')\<close> names when \<open>c\<close> has no path
  separator.
\<close>

datatype file_content = JsonText json | Unreadable

type_synonym directory = "(string \<times> file_content) list"

record PersistentVectorDB =
  collections :: "string \<rightharpoonup> StoredDocument list"
  initialized :: bool
  vectorsDir :: directory

subsection \<open>Writing and reading a collection file\<close>

definition metadata_to_json :: "metadata \<Rightarrow> json" where
  "metadata_to_json m = JObj (
       [(''source'', JStr (source m))]
     @ opt_prop ''page'' (map_option (\<lambda>p. JNum (of_int p)) (page m))
     @ [(''chunkIndex'', JNum (of_int (chunkIndex m))),
        (''totalChunks'', JNum (of_int (totalChunks m)))]
     @ opt_prop ''documentType'' (documentType m)
     @ opt_prop ''title'' (title m)
     @ opt_prop ''fileSize'' (fileSize m)
     @ opt_prop ''fileName'' (fileName m))"

definition document_to_json :: "StoredDocument \<Rightarrow> json" where
  "document_to_json d = JObj (
       [(''id'', JStr (d_id d)), (''content'', JStr (d_content d))]
     @ opt_prop ''embedding'' (map_option (\<lambda>v. JArr (map JNum v)) (d_embedding d))
     @ [(''metadata'', metadata_to_json (d_metadata d))])"

text \<open>\<open>JSON.stringify (collection, null, 2)\<close>.\<close>

definition JSON_stringify :: "StoredDocument list \<Rightarrow> file_content" where
  "JSON_stringify coll = JsonText (JArr (map document_to_json coll))"

text \<open>
  \<open>JSON.parse\<close> of a file, read at the type \<open>StoredDocument[]\<close> the code gives the
  result. A text that is not an array of records of that shape has no value of the
  type; the model treats it like a file that does not parse.
\<close>

fun num_of_json :: "json \<Rightarrow> real option" where
  "num_of_json (JNum r) = Some r"
| "num_of_json _ = None"

fun those_opt :: "'a option list \<Rightarrow> 'a list option" where
  "those_opt [] = Some []"
| "those_opt (x # xs) =
     (case x of None \<Rightarrow> None
      | Some y \<Rightarrow> (case those_opt xs of None \<Rightarrow> None | Some ys \<Rightarrow> Some (y # ys)))"

fun int_prop :: "json option \<Rightarrow> int option" where
  "int_prop (Some (JNum r)) = int_of_num r"
| "int_prop _ = None"

fun json_to_metadata :: "json \<Rightarrow> metadata option" where
  "json_to_metadata (JObj ps) =
     (case (obj_get ps ''source'', int_prop (obj_get ps ''chunkIndex''),
            int_prop (obj_get ps ''totalChunks'')) of
        (Some (JStr s), Some ci, Some tc) \<Rightarrow>
          (if obj_get ps ''page'' \<noteq> None \<and> int_prop (obj_get ps ''page'') = None then None
           else Some \<lparr>source = s, page = int_prop (obj_get ps ''page''),
                  chunkIndex = ci, totalChunks = tc,
                  documentType = obj_get ps ''documentType'',
                  title = obj_get ps ''title'',
                  fileSize = obj_get ps ''fileSize'',
                  fileName = obj_get ps ''fileName''\<rparr>)
      | _ \<Rightarrow> None)"
| "json_to_metadata _ = None"

fun json_to_embedding :: "json option \<Rightarrow> real list option option" where
  "json_to_embedding None = Some None"
| "json_to_embedding (Some (JArr js)) = map_option Some (those_opt (map num_of_json js))"
| "json_to_embedding _ = None"

fun json_to_document :: "json \<Rightarrow> StoredDocument option" where
  "json_to_document (JObj ps) =
     (case (obj_get ps ''id'', obj_get ps ''content'',
            json_to_embedding (obj_get ps ''embedding''), obj_get ps ''metadata'') of
        (Some (JStr i), Some (JStr c), Some e, Some mj) \<Rightarrow>
          (case json_to_metadata mj of
             None \<Rightarrow> None
           | Some m \<Rightarrow> Some \<lparr>d_id = i, d_content = c, d_embedding = e, d_metadata = m\<rparr>)
      | _ \<Rightarrow> None)"
| "json_to_document _ = None"

fun JSON_parse :: "file_content \<Rightarrow> StoredDocument list option" where
  "JSON_parse (JsonText (JArr js)) = those_opt (map json_to_document js)"
| "JSON_parse _ = None"

fun writeFileSync :: "string \<Rightarrow> file_content \<Rightarrow> directory \<Rightarrow> directory" where
  "writeFileSync name body [] = [(name, body)]"
| "writeFileSync name body ((n, b) # rest) =
     (if n = name then (name, body) # rest else (n, b) # writeFileSync name body rest)"


text \<open>
  \<open>saveCollectionToDisk\<close>. \<open>written\<close> tells whether \<open>writeFileSync\<close> succeeds; when it
  throws, the error is logged and the directory stays as it was.
\<close>

definition saveCollectionToDisk :: "bool \<Rightarrow> string \<Rightarrow> PersistentVectorDB \<Rightarrow> PersistentVectorDB" where
  "saveCollectionToDisk written collectionName db =
     (case collections db collectionName of
        None \<Rightarrow> db
      | Some collection \<Rightarrow>
          (if written
           then db\<lparr>vectorsDir :=
                  writeFileSync (collectionName @ ''.json'') (JSON_stringify collection)
                    (vectorsDir db)\<rparr>
           else db))"

text \<open>\<open>path.basename (file, '.json')\<close> on an entry that ends with \<open>.json\<close>.\<close>

definition basename_json :: "string \<Rightarrow> string" where
  "basename_json file = take (length file - 5) file"

text \<open>
  The loop of \<open>loadCollectionsFromDisk\<close> over the files that end with \<open>.json\<close>: a file
  that fails to load is skipped with a warning.
\<close>

fun load_files :: "directory \<Rightarrow> (string \<rightharpoonup> StoredDocument list) \<Rightarrow> (string \<rightharpoonup> StoredDocument list)" where
  "load_files [] m = m"
| "load_files ((file, body) # rest) m =
     (case JSON_parse body of
        Some data \<Rightarrow> load_files rest (m(basename_json file \<mapsto> data))
      | None \<Rightarrow> load_files rest m)"

definition loadCollectionsFromDisk :: "PersistentVectorDB \<Rightarrow> PersistentVectorDB" where
  "loadCollectionsFromDisk db =
     db\<lparr>collections :=
          load_files (filter (\<lambda>(f, b). suffix ''.json'' f) (vectorsDir db)) (collections db)\<rparr>"

text \<open>
  \<open>initialize\<close> and \<open>ensureInitialized\<close>. \<open>loadCollectionsFromDisk\<close> catches every
  error itself, so the \<open>catch\<close> of \<open>initialize\<close> is never entered.
\<close>

definition initialize :: "PersistentVectorDB \<Rightarrow> PersistentVectorDB" where
  "initialize db =
     (if initialized db then db else (loadCollectionsFromDisk db)\<lparr>initialized := True\<rparr>)"

definition ensureInitialized :: "PersistentVectorDB \<Rightarrow> PersistentVectorDB" where
  "ensureInitialized db = (if \<not> initialized db then initialize db else db)"


subsection \<open>Cosine similarity\<close>

text \<open>The loop of \<open>cosineSimilarity\<close>, run on two arrays of the same length.\<close>

fun cosine_sums :: "real list \<Rightarrow> real list \<Rightarrow> real \<times> real \<times> real \<Rightarrow> real \<times> real \<times> real" where
  "cosine_sums (x # xs) (y # ys) (dotProduct, normA, normB) =
     cosine_sums xs ys (dotProduct + x * y, normA + x * x, normB + y * y)"
| "cosine_sums _ _ acc = acc"

definition cosineSimilarity :: "real list \<Rightarrow> real list \<Rightarrow> real" where
  "cosineSimilarity a b =
     (if length a \<noteq> length b then 0
      else (case cosine_sums a b (0, 0, 0) of
              (dotProduct, normA, normB) \<Rightarrow>
                if normA = 0 \<or> normB = 0 then 0
                else dotProduct / (sqrt normA * sqrt normB)))"

subsection \<open>addDocuments\<close>

text \<open>\<open>x || 0\<close> on an optional number.\<close>

definition or_zero :: "int option \<Rightarrow> int" where
  "or_zero p = (case p of None \<Rightarrow> 0 | Some n \<Rightarrow> if n = 0 then 0 else n)"

definition make_document :: "DocumentChunk \<Rightarrow> real list option \<Rightarrow> StoredDocument" where
  "make_document chunk embedding =
     \<lparr>d_id = c_id chunk,
      d_content = c_content chunk,
      d_embedding = embedding,
      d_metadata =
        \<lparr>source = source (c_metadata chunk),
         page = Some (or_zero (page (c_metadata chunk))),
         chunkIndex = chunkIndex (c_metadata chunk),
         totalChunks = totalChunks (c_metadata chunk),
         documentType = documentType (c_metadata chunk),
         title = title (c_metadata chunk),
         fileSize = fileSize (c_metadata chunk),
         fileName = fileName (c_metadata chunk)\<rparr>\<rparr>"

text \<open>The loop \<open>for (i = 0; i < chunks.length; i++) collection.push (doc)\<close>.\<close>

definition push_documents ::
  "DocumentChunk list \<Rightarrow> real list list \<Rightarrow> StoredDocument list \<Rightarrow> StoredDocument list" where
  "push_documents chunks embeddings collection =
     fold (\<lambda>i coll. coll @ [make_document (chunks ! i) (nth_opt embeddings i)])
       [0 ..< length chunks] collection"

text \<open>
  \<open>addDocuments\<close>. With arguments of the declared types no statement of its \<open>try\<close>
  block throws (\<open>saveCollectionToDisk\<close> catches its own errors), so the call returns
  and the result is the new state.
\<close>

definition addDocuments ::
  "bool \<Rightarrow> PersistentVectorDB \<Rightarrow> string \<Rightarrow> DocumentChunk list \<Rightarrow> real list list \<Rightarrow> PersistentVectorDB" where
  "addDocuments written db0 collectionName chunks embeddings =
     (let db = ensureInitialized db0;
          db1 = (if collections db collectionName = None
                 then db\<lparr>collections := (collections db)(collectionName \<mapsto> [])\<rparr> else db)
      in (case collections db1 collectionName of
            None \<Rightarrow> db1
          | Some collection \<Rightarrow>
              saveCollectionToDisk written collectionName
                (db1\<lparr>collections := (collections db1)(collectionName \<mapsto>
                        push_documents chunks embeddings collection)\<rparr>)))"

subsection \<open>search\<close>

text \<open>
  \<open>collection.map (doc => ({doc, score: cosineSimilarity (queryEmbedding, doc.embedding)}))\<close>.
  On a record without embedding, \<open>cosineSimilarity\<close> reads \<open>b.length\<close> of \<open>undefined\<close>
  and throws a TypeError.
\<close>

fun similarities :: "real list \<Rightarrow> StoredDocument list \<Rightarrow> (StoredDocument \<times> real) list option" where
  "similarities q [] = Some []"
| "similarities q (doc # docs) =
     (case d_embedding doc of
        None \<Rightarrow> None
      | Some v \<Rightarrow>
          (case similarities q docs of
             None \<Rightarrow> None
           | Some rest \<Rightarrow> Some ((doc, cosineSimilarity q v) # rest)))"

definition by_score_desc :: "StoredDocument \<times> real \<Rightarrow> StoredDocument \<times> real \<Rightarrow> real" where
  "by_score_desc a b = snd b - snd a"

definition to_result :: "StoredDocument \<times> real \<Rightarrow> SearchResult" where
  "to_result item =
     \<lparr>r_content = d_content (fst item), r_score = snd item, r_metadata = d_metadata (fst item)\<rparr>"

text \<open>
  \<open>search\<close>. The parameter \<open>limit\<close> defaults to \<open>config.rag.maxResults\<close>. An error
  thrown while the scores are computed is thrown again as "Search failed".
\<close>

definition search ::
  "RagConfig \<Rightarrow> PersistentVectorDB \<Rightarrow> string \<Rightarrow> real list \<Rightarrow> int option
     \<Rightarrow> PersistentVectorDB \<times> (error + SearchResult list)" where
  "search cfg db0 collectionName queryEmbedding limit_arg =
     (let db = ensureInitialized db0;
          limit = (case limit_arg of None \<Rightarrow> maxResults cfg | Some l \<Rightarrow> l)
      in (case collections db collectionName of
            None \<Rightarrow> (db, Inr [])
          | Some collection \<Rightarrow>
              if length collection = 0 then (db, Inr [])
              else (case similarities queryEmbedding collection of
                      None \<Rightarrow> (db, Inl SearchFailed)
                    | Some sims \<Rightarrow>
                        (db, Inr (map to_result (js_slice 0 limit (js_sort by_score_desc sims)))))))"

subsection \<open>deleteCollection\<close>


section \<open>The chunker (core/chunker.ts)\<close>

text \<open>White space as \<open>String.prototype.trim\<close> and the class \<open>\s\<close> see it, in Latin-1.\<close>

definition is_ws :: "char \<Rightarrow> bool" where
  "is_ws c = (c \<in> set [CHR 0x09, CHR 0x0A, CHR 0x0B, CHR 0x0C, CHR 0x0D, CHR 0x20, CHR 0xA0])"

definition trim :: "string \<Rightarrow> string" where
  "trim s = rev (dropWhile is_ws (rev (dropWhile is_ws s)))"

definition is_terminal :: "char \<Rightarrow> bool" where
  "is_terminal c = (c \<in> set [CHR ''.'', CHR ''!'', CHR ''?''])"

text \<open>
  \<open>text.split (/(?<=[.!?])\s+/)\<close>: the text is cut at every run of white space that
  follows a terminal punctuation mark, and the run is dropped. \<open>piece\<close> holds the
  characters read since the last cut, the last one first.
\<close>

function split_sentences :: "string \<Rightarrow> string \<Rightarrow> string list" where
  "split_sentences piece [] = [rev piece]"
| "split_sentences piece (c # cs) =
     (if is_ws c \<and> (case piece of [] \<Rightarrow> False | p # _ \<Rightarrow> is_terminal p)
      then rev piece # split_sentences [] (dropWhile is_ws cs)
      else split_sentences (c # piece) cs)"
  by pat_completeness auto
termination
  by (relation "measure (\<lambda>(piece, rest). length rest)")
    (auto simp: less_Suc_eq_le length_dropWhile_le)

definition splitIntoSentences :: "string \<Rightarrow> string list" where
  "splitIntoSentences text =
     map (\<lambda>sentence. trim sentence @ '' '')
       (filter (\<lambda>sentence. length (trim sentence) > 0) (split_sentences [] text))"

text \<open>
  The loop of \<open>getOverlapText\<close> that looks for a space, from index \<open>overlapSize\<close>
  downwards; its value is the break point the loop ends with.
\<close>

function break_point :: "string \<Rightarrow> int \<Rightarrow> int \<Rightarrow> int" where
  "break_point chunk overlapSize i =
     (if i > overlapSize - 50 \<and> i > 0
      then (if nth_opt chunk (nat i) = Some CHR '' '' then i + 1
            else break_point chunk overlapSize (i - 1))
      else overlapSize)"
  by pat_completeness auto
termination
  by (relation "measure (\<lambda>(chunk, overlapSize, i). nat i)") auto

declare break_point.simps [simp del]

definition getOverlapText :: "string \<Rightarrow> int \<Rightarrow> string" where
  "getOverlapText chunk overlapSize =
     (if int (length chunk) \<le> overlapSize then chunk
      else js_slice_from (- break_point chunk overlapSize overlapSize) chunk)"

text \<open>\<open>x || d\<close> on an optional number: \<open>undefined\<close> and \<open>0\<close> give the default.\<close>

definition or_default :: "int option \<Rightarrow> int \<Rightarrow> int" where
  "or_default x d = (case x of None \<Rightarrow> d | Some n \<Rightarrow> if n = 0 then d else n)"

text \<open>One turn of the loop over the sentences; the state is \<open>(chunks, currentChunk, currentSize)\<close>.\<close>

definition chunk_step ::
  "int \<Rightarrow> int \<Rightarrow> string list \<times> string \<times> int \<Rightarrow> string \<Rightarrow> string list \<times> string \<times> int" where
  "chunk_step size_n overlapSize st sentence =
     (case st of (chunks, currentChunk, currentSize) \<Rightarrow>
        (let sentenceSize = int (length sentence)
         in if currentSize + sentenceSize > size_n \<and> trim currentChunk \<noteq> []
            then (let overlap = getOverlapText currentChunk overlapSize
                  in (chunks @ [trim currentChunk], overlap @ sentence,
                      int (length overlap) + sentenceSize))
            else (chunks, currentChunk @ sentence, currentSize + sentenceSize)))"

definition chunkText :: "RagConfig \<Rightarrow> string \<Rightarrow> int option \<Rightarrow> int option \<Rightarrow> error + string list" where
  "chunkText cfg text chunkSize_arg overlap_arg =
     (let size_n = or_default chunkSize_arg (chunkSize cfg);
          overlapSize = or_default overlap_arg (chunkOverlap cfg)
      in if size_n \<le> 0 then Inl ChunkSizeNotPositive
         else if overlapSize \<ge> size_n then Inl OverlapNotLessThanSize
         else (case fold (\<lambda>sentence st. chunk_step size_n overlapSize st sentence)
                      (splitIntoSentences text) ([], [], 0) of
                 (chunks, currentChunk, currentSize) \<Rightarrow>
                   Inr (if trim currentChunk \<noteq> [] then chunks @ [trim currentChunk]
                        else chunks)))"

text \<open>
  The same loop, keeping each buffer as it is when it is emitted, before \<open>trim\<close>: the
  passages of \<open>chunkText\<close> are the trimmed buffers.
\<close>

definition buffer_step ::
  "int \<Rightarrow> int \<Rightarrow> string list \<times> string \<times> int \<Rightarrow> string \<Rightarrow> string list \<times> string \<times> int" where
  "buffer_step size_n overlapSize st sentence =
     (case st of (buffers, currentChunk, currentSize) \<Rightarrow>
        (let sentenceSize = int (length sentence)
         in if currentSize + sentenceSize > size_n \<and> trim currentChunk \<noteq> []
            then (let overlap = getOverlapText currentChunk overlapSize
                  in (buffers @ [currentChunk], overlap @ sentence,
                      int (length overlap) + sentenceSize))
            else (buffers, currentChunk @ sentence, currentSize + sentenceSize)))"

definition emitted_buffers :: "RagConfig \<Rightarrow> string \<Rightarrow> int option \<Rightarrow> int option \<Rightarrow> string list" where
  "emitted_buffers cfg text chunkSize_arg overlap_arg =
     (let size_n = or_default chunkSize_arg (chunkSize cfg);
          overlapSize = or_default overlap_arg (chunkOverlap cfg)
      in (case fold (\<lambda>sentence st. buffer_step size_n overlapSize st sentence)
                   (splitIntoSentences text) ([], [], 0) of
            (buffers, currentChunk, currentSize) \<Rightarrow>
              (if trim currentChunk \<noteq> [] then buffers @ [currentChunk] else buffers)))"

section \<open>The cache (utils/cache.ts)\<close>

record QueryResponse =
  answer :: string
  sources :: "SearchResult list"
  processingTime :: int

text \<open>
  \<open>hashString\<close>: \<open>hash = ((hash << 5) - hash) + char; hash = hash & hash\<close> keeps the
  hash a 32-bit integer; the result is \<open>Math.abs (hash).toString (36)\<close>.
\<close>

definition hash_char :: "32 word \<Rightarrow> char \<Rightarrow> 32 word" where
  "hash_char hash c = (push_bit 5 hash - hash) + of_nat (of_char c)"

definition digit36 :: "nat \<Rightarrow> char" where
  "digit36 d = ''0123456789abcdefghijklmnopqrstuvwxyz'' ! d"

function to_base36 :: "nat \<Rightarrow> string" where
  "to_base36 n = (if n < 36 then [digit36 n] else to_base36 (n div 36) @ [digit36 (n mod 36)])"
  by pat_completeness auto
termination
  by (relation "measure (\<lambda>n. n)") auto

declare to_base36.simps [simp del]

definition hashString :: "string \<Rightarrow> string" where
  "hashString str = to_base36 (nat \<bar>sint (fold (\<lambda>c hash. hash_char hash c) str 0)\<bar>)"

text \<open>
  The cache holds embeddings under the keys \<open>embedding:<hash>\<close> and query responses
  under the keys \<open>search:<collection>:<hash>\<close>. The two kinds of key never meet, so
  the model keeps one map for each. Expiry of entries is not modelled.
\<close>

record Cache =
  embedding_entries :: "string \<rightharpoonup> real list"
  search_entries :: "string \<rightharpoonup> QueryResponse"

definition setEmbedding :: "Cache \<Rightarrow> string \<Rightarrow> real list \<Rightarrow> Cache" where
  "setEmbedding cache text embedding =
     cache\<lparr>embedding_entries :=
       (embedding_entries cache)(''embedding:'' @ hashString text \<mapsto> embedding)\<rparr>"

definition getEmbedding :: "Cache \<Rightarrow> string \<Rightarrow> real list option" where
  "getEmbedding cache text = embedding_entries cache (''embedding:'' @ hashString text)"

definition setSearchResult :: "Cache \<Rightarrow> string \<Rightarrow> string \<Rightarrow> QueryResponse \<Rightarrow> Cache" where
  "setSearchResult cache query collection results =
     cache\<lparr>search_entries :=
       (search_entries cache)(''search:'' @ collection @ '':'' @ hashString query \<mapsto> results)\<rparr>"

definition getSearchResult :: "Cache \<Rightarrow> string \<Rightarrow> string \<Rightarrow> QueryResponse option" where
  "getSearchResult cache query collection =
     search_entries cache (''search:'' @ collection @ '':'' @ hashString query)"

section \<open>The embedding service (core/embeddings.ts)\<close>

text \<open>
  The feature extractor gives a vector for a text, or throws (\<open>None\<close>). The argument
  \<open>loaded\<close> of the functions below is what loading the model gives: an extractor, or
  an error (\<open>None\<close>).
\<close>

type_synonym extractor = "string \<Rightarrow> real list option"

record LocalEmbeddingService =
  e_extractor :: "extractor option"
  e_initialized :: bool

definition e_initialize :: "extractor option \<Rightarrow> LocalEmbeddingService \<Rightarrow> error + LocalEmbeddingService" where
  "e_initialize loaded svc =
     (if e_initialized svc then Inr svc
      else (case loaded of
              None \<Rightarrow> Inl EmbeddingInitFailed
            | Some ex \<Rightarrow> Inr (svc\<lparr>e_extractor := Some ex, e_initialized := True\<rparr>)))"

definition e_ensureInitialized :: "extractor option \<Rightarrow> LocalEmbeddingService \<Rightarrow> error + LocalEmbeddingService" where
  "e_ensureInitialized loaded svc = (if \<not> e_initialized svc then e_initialize loaded svc else Inr svc)"







text \<open>
  Calling \<open>this.extractor\<close>: while the field is \<open>null\<close> the call throws.
\<close>

definition call_extractor :: "LocalEmbeddingService \<Rightarrow> extractor" where
  "call_extractor svc = (case e_extractor svc of None \<Rightarrow> (\<lambda>text. None) | Some ex \<Rightarrow> ex)"


definition generateQueryEmbedding ::
  "extractor option \<Rightarrow> LocalEmbeddingService \<Rightarrow> Cache \<Rightarrow> string
     \<Rightarrow> LocalEmbeddingService \<times> Cache \<times> (error + real list)" where
  "generateQueryEmbedding loaded svc0 cache query =
     (case e_ensureInitialized loaded svc0 of
        Inl e \<Rightarrow> (svc0, cache, Inl e)
      | Inr svc \<Rightarrow>
          (case getEmbedding cache query of
             Some embedding \<Rightarrow> (svc, cache, Inr embedding)
           | None \<Rightarrow>
               (case call_extractor svc query of
                  None \<Rightarrow> (svc, cache, Inl EmbeddingFailed)
                | Some embedding \<Rightarrow>
                    (svc, setEmbedding cache query embedding, Inr embedding))))"


subsection \<open>Callers of \<open>initialize\<close> that run interleaved\<close>

text \<open>
  \<open>ensureInitialized\<close> and \<open>initialize\<close> as the steps a caller takes between two
  \<open>await\<close>s. A caller first reads \<open>this.initialized\<close>, in \<open>ensureInitialized\<close> and again
  in \<open>initialize\<close>, and if it is not set goes on to \<open>await import (...)\<close>. When the
  import has come it calls \<open>pipeline (...)\<close>, which loads the model, and awaits it. When
  the model has come it stores the extractor and sets \<open>this.initialized\<close>. An awaited
  promise that is rejected makes the caller throw. \<open>w_loads\<close> counts the calls of
  \<open>pipeline\<close>.
\<close>

datatype init_pc = Calling | AwaitingImport | AwaitingPipeline | Returned | Thrown

record init_world =
  w_initialized :: bool
  w_loads :: nat
  w_callers :: "init_pc list"

definition caller_step :: "nat \<Rightarrow> bool \<Rightarrow> init_world \<Rightarrow> init_world" where
  "caller_step k fulfilled w =
     (case nth_opt (w_callers w) k of
        None \<Rightarrow> w
      | Some Calling \<Rightarrow>
          (if w_initialized w then w\<lparr>w_callers := (w_callers w)[k := Returned]\<rparr>
           else w\<lparr>w_callers := (w_callers w)[k := AwaitingImport]\<rparr>)
      | Some AwaitingImport \<Rightarrow>
          (if fulfilled
           then w\<lparr>w_loads := w_loads w + 1, w_callers := (w_callers w)[k := AwaitingPipeline]\<rparr>
           else w\<lparr>w_callers := (w_callers w)[k := Thrown]\<rparr>)
      | Some AwaitingPipeline \<Rightarrow>
          (if fulfilled
           then w\<lparr>w_initialized := True, w_callers := (w_callers w)[k := Returned]\<rparr>
           else w\<lparr>w_callers := (w_callers w)[k := Thrown]\<rparr>)
      | Some Returned \<Rightarrow> w
      | Some Thrown \<Rightarrow> w)"

text \<open>A schedule names, step by step, the caller that runs and how its promise ended.\<close>

definition run_schedule :: "(nat \<times> bool) list \<Rightarrow> init_world \<Rightarrow> init_world" where
  "run_schedule schedule w = fold (\<lambda>(k, fulfilled). caller_step k fulfilled) schedule w"

definition fresh_world :: "nat \<Rightarrow> init_world" where
  "fresh_world n = \<lparr>w_initialized = False, w_loads = 0, w_callers = replicate n Calling\<rparr>"

text \<open>The schedule in which each of \<open>n\<close> callers runs to its end before the next starts.\<close>

definition one_after_another :: "nat \<Rightarrow> (nat \<times> bool) list" where
  "one_after_another n = concat (map (\<lambda>k. [(k, True), (k, True), (k, True)]) [0 ..< n])"

section \<open>The service (core/rag-service.ts)\<close>

record QueryRequest =
  q_question :: string
  q_collection :: string
  q_limit :: "int option"
  q_threshold :: "real option"

record RAGService =
  s_embeddings :: LocalEmbeddingService
  s_vectorDb :: PersistentVectorDB
  s_initialized :: bool

text \<open>Decimal digits of a number in a template string.\<close>

function show_nat :: "nat \<Rightarrow> string" where
  "show_nat n = (if n < 10 then [digit36 n] else show_nat (n div 10) @ [digit36 (n mod 10)])"
  by pat_completeness auto
termination
  by (relation "measure (\<lambda>n. n)") auto

declare show_nat.simps [simp del]

definition show_int :: "int \<Rightarrow> string" where
  "show_int i = (if i < 0 then ''-'' @ show_nat (nat (- i)) else show_nat (nat i))"

definition show_page :: "int option \<Rightarrow> string" where
  "show_page p = (case p of None \<Rightarrow> ''undefined'' | Some n \<Rightarrow> show_int n)"

text \<open>\<open>Array.prototype.join\<close>.\<close>

fun join :: "string \<Rightarrow> string list \<Rightarrow> string" where
  "join sep [] = []"
| "join sep [x] = x"
| "join sep (x # y # ys) = x @ sep @ join sep (y # ys)"

text \<open>The passage with its header: \<open>[source, Page page]\<close>, a line feed, the content.\<close>

definition passage_text :: "SearchResult \<Rightarrow> string" where
  "passage_text result =
     ''['' @ source (r_metadata result) @ '', Page '' @ show_page (page (r_metadata result))
       @ '']'' @ [CHR 0x0A] @ r_content result"

definition separator :: string where
  "separator = [CHR 0x0A, CHR 0x0A] @ ''---'' @ [CHR 0x0A, CHR 0x0A]"

definition no_content_message :: string where
  "no_content_message = ''No relevant content found in the documents.''"

definition s_initialize :: "extractor option \<Rightarrow> RAGService \<Rightarrow> error + RAGService" where
  "s_initialize loaded svc =
     (if s_initialized svc then Inr svc
      else (case e_initialize loaded (s_embeddings svc) of
              Inl e \<Rightarrow> Inl InitializationFailed
            | Inr emb \<Rightarrow> Inr (svc\<lparr>s_embeddings := emb, s_initialized := True\<rparr>)))"

definition s_ensureInitialized :: "extractor option \<Rightarrow> RAGService \<Rightarrow> error + RAGService" where
  "s_ensureInitialized loaded svc = (if \<not> s_initialized svc then s_initialize loaded svc else Inr svc)"

text \<open>
  \<open>query\<close>. \<open>elapsed\<close> stands for the time the clock measures. The value is the
  service and the cache after the call, and the response or the error.
\<close>

definition query ::
  "RagConfig \<Rightarrow> extractor option \<Rightarrow> int \<Rightarrow> RAGService \<Rightarrow> Cache \<Rightarrow> QueryRequest
     \<Rightarrow> RAGService \<times> Cache \<times> (error + QueryResponse)" where
  "query cfg loaded elapsed svc0 cache request =
     (case s_ensureInitialized loaded svc0 of
        Inl e \<Rightarrow> (svc0, cache, Inl e)
      | Inr svc \<Rightarrow>
          (case getSearchResult cache (q_question request) (q_collection request) of
             Some cachedResult \<Rightarrow> (svc, cache, Inr (cachedResult\<lparr>processingTime := elapsed\<rparr>))
           | None \<Rightarrow>
               (case generateQueryEmbedding loaded (s_embeddings svc) cache (q_question request) of
                  (emb, cache1, Inl e) \<Rightarrow> (svc\<lparr>s_embeddings := emb\<rparr>, cache1, Inl QueryFailed)
                | (emb, cache1, Inr queryEmbedding) \<Rightarrow>
                    (case search cfg (s_vectorDb svc) (q_collection request) queryEmbedding
                            (Some (or_default (q_limit request) (maxResults cfg))) of
                       (db, Inl e) \<Rightarrow>
                         (svc\<lparr>s_embeddings := emb, s_vectorDb := db\<rparr>, cache1, Inl QueryFailed)
                     | (db, Inr searchResults) \<Rightarrow>
                         (let threshold =
                                (case q_threshold request of
                                   Some t \<Rightarrow> t | None \<Rightarrow> similarityThreshold cfg);
                              filteredResults =
                                filter (\<lambda>result. r_score result \<ge> threshold) searchResults;
                              passages = join separator (map passage_text filteredResults);
                              response =
                                \<lparr>answer = (if passages = [] then no_content_message else passages),
                                 sources = filteredResults,
                                 processingTime = elapsed\<rparr>
                          in (svc\<lparr>s_embeddings := emb, s_vectorDb := db\<rparr>,
                              setSearchResult cache1 (q_question request) (q_collection request)
                                response,
                              Inr response))))))"

section \<open>Predicates used in the proofs about the chunker\<close>

text \<open>
  \<open>trim\<close> is \<open>trimR\<close> after \<open>trimL\<close>. \<open>overlap_holds ov b b'\<close> says that the trimmed
  overlap text of the buffer \<open>b\<close> ends the passage of \<open>b\<close>, begins the passage of
  \<open>b'\<close> and is at most \<open>ov\<close> long. \<open>ends_sentence b\<close> says that \<open>b\<close> ends with a
  character that is not white space and one space.
\<close>

definition trimL :: "string \<Rightarrow> string" where "trimL s = dropWhile is_ws s"

definition trimR :: "string \<Rightarrow> string" where "trimR s = rev (dropWhile is_ws (rev s))"

definition overlap_holds :: "int \<Rightarrow> string \<Rightarrow> string \<Rightarrow> bool" where
  "overlap_holds ov b b' =
     (suffix (trim (getOverlapText b ov)) (trim b)
      \<and> prefix (trim (getOverlapText b ov)) (trim b')
      \<and> int (length (trim (getOverlapText b ov))) \<le> ov)"

definition adjacent_ok :: "int \<Rightarrow> string list \<Rightarrow> bool" where
  "adjacent_ok ov bs = (\<forall>i. Suc i < length bs \<longrightarrow> overlap_holds ov (bs ! i) (bs ! Suc i))"

definition buffer_inv :: "int \<Rightarrow> string list \<times> string \<times> int \<Rightarrow> bool" where
  "buffer_inv ov st =
     (case st of (bs, cur, n) \<Rightarrow>
        n = int (length cur)
        \<and> (cur = [] \<or> is_ws (last cur))
        \<and> (\<forall>b \<in> set bs. b \<noteq> [] \<and> is_ws (last b))
        \<and> adjacent_ok ov bs
        \<and> (bs \<noteq> [] \<longrightarrow> (\<exists>rest. cur = getOverlapText (last bs) ov @ rest)))"

definition ends_sentence :: "string \<Rightarrow> bool" where
  "ends_sentence b = (\<exists>u c. b = u @ [c, CHR '' ''] \<and> \<not> is_ws c)"

definition shape_inv :: "string list \<times> string \<times> int \<Rightarrow> bool" where
  "shape_inv st =
     (case st of (bs, cur, n) \<Rightarrow>
        (cur = [] \<or> ends_sentence cur) \<and> (\<forall>b \<in> set bs. ends_sentence b))"

section \<open>Notions used in the proofs about the embedding service\<close>




section \<open>Example values\<close>

definition example_metadata :: "string \<Rightarrow> metadata" where
  "example_metadata s =
     \<lparr>source = s, page = Some 1, chunkIndex = 0, totalChunks = 1,
      documentType = Some (JStr ''txt''), title = None, fileSize = None, fileName = None\<rparr>"

definition example_document :: "string \<Rightarrow> real list \<Rightarrow> StoredDocument" where
  "example_document name v =
     \<lparr>d_id = name, d_content = name, d_embedding = Some v, d_metadata = example_metadata name\<rparr>"

definition example_chunk :: "string \<Rightarrow> DocumentChunk" where
  "example_chunk name = \<lparr>c_id = name, c_content = name, c_metadata = example_metadata name\<rparr>"

definition unit_documents :: "StoredDocument list" where
  "unit_documents =
     [example_document ''a'' [1, 0, 0], example_document ''b'' [0, 1, 0],
      example_document ''c'' [0, 0, 1]]"

definition example_db :: PersistentVectorDB where
  "example_db = \<lparr>collections = [''t'' \<mapsto> unit_documents], initialized = True, vectorsDir = []\<rparr>"

definition example_extractor :: extractor where
  "example_extractor t = Some [real (length t)]"

definition empty_cache :: Cache where
  "empty_cache = \<lparr>embedding_entries = Map.empty, search_entries = Map.empty\<rparr>"

definition new_service :: LocalEmbeddingService where
  "new_service = \<lparr>e_extractor = None, e_initialized = False\<rparr>"

definition example_service :: RAGService where
  "example_service = \<lparr>s_embeddings = new_service, s_vectorDb = example_db, s_initialized = False\<rparr>"

definition cache_with_question :: Cache where
  "cache_with_question = setEmbedding empty_cache ''q'' [1, 0, 0]"

definition example_request :: QueryRequest where
  "example_request = \<lparr>q_question = ''q'', q_collection = ''t'', q_limit = None, q_threshold = None\<rparr>"

section \<open>Properties of the vector store\<close>
















lemma ensureInitialized_idem: "ensureInitialized (ensureInitialized db) = ensureInitialized db"
  by (simp add: ensureInitialized_def initialize_def)







lemma fold_push:
  "fold (\<lambda>i acc. acc @ [f i]) is acc = acc @ map f is"
  by (induction "is" arbitrary: acc) simp_all

lemma push_documents_eq:
  "push_documents chunks embeddings collection =
     collection @ map (\<lambda>i. make_document (chunks ! i) (nth_opt embeddings i)) [0 ..< length chunks]"
  by (simp add: push_documents_def fold_push)

lemma collections_saveCollectionToDisk:
  "collections (saveCollectionToDisk written c db) = collections db"
  by (simp add: saveCollectionToDisk_def split: option.splits)

lemma collections_addDocuments:
  "collections (addDocuments written db c chunks embeddings) =
     (collections (ensureInitialized db))(c \<mapsto>
        push_documents chunks embeddings
          (case collections (ensureInitialized db) c of None \<Rightarrow> [] | Some old \<Rightarrow> old))"
  by (cases "collections (ensureInitialized db) c")
    (simp_all add: addDocuments_def Let_def collections_saveCollectionToDisk)

text \<open>
  Claim C8. After \<open>addDocuments\<close> the collection is the old collection (empty if there
  was none) followed by one record for each chunk, in the order of the chunks; every
  other collection is as before. When as many vectors as chunks are passed, the record
  number \<open>i\<close> is made of chunk \<open>i\<close> and vector \<open>i\<close>. The state before is the store once
  it is initialized, which is the store itself when it already was.
\<close>

theorem addDocuments_only_appends:
  "collections (addDocuments written db c chunks embeddings) c =
     Some ((case collections (ensureInitialized db) c of None \<Rightarrow> [] | Some old \<Rightarrow> old)
           @ map (\<lambda>i. make_document (chunks ! i) (nth_opt embeddings i)) [0 ..< length chunks])
   \<and> (\<forall>other. other \<noteq> c \<longrightarrow>
        collections (addDocuments written db c chunks embeddings) other
          = collections (ensureInitialized db) other)
   \<and> (length embeddings = length chunks \<longrightarrow>
        map (\<lambda>i. make_document (chunks ! i) (nth_opt embeddings i)) [0 ..< length chunks]
          = map2 (\<lambda>chunk v. make_document chunk (Some v)) chunks embeddings)
   \<and> (initialized db \<longrightarrow> ensureInitialized db = db)"
proof (intro conjI allI impI)
  show "collections (addDocuments written db c chunks embeddings) c =
     Some ((case collections (ensureInitialized db) c of None \<Rightarrow> [] | Some old \<Rightarrow> old)
           @ map (\<lambda>i. make_document (chunks ! i) (nth_opt embeddings i)) [0 ..< length chunks])"
    by (simp add: collections_addDocuments push_documents_eq)
next
  fix other :: string
  assume "other \<noteq> c"
  then show "collections (addDocuments written db c chunks embeddings) other
          = collections (ensureInitialized db) other"
    by (simp add: collections_addDocuments)
next
  assume "length embeddings = length chunks"
  then show "map (\<lambda>i. make_document (chunks ! i) (nth_opt embeddings i)) [0 ..< length chunks]
          = map2 (\<lambda>chunk v. make_document chunk (Some v)) chunks embeddings"
    by (intro nth_equalityI) (simp_all add: nth_opt_def)
next
  assume "initialized db"
  then show "ensureInitialized db = db" by (simp add: ensureInitialized_def)
qed

theorem addDocuments_only_appends_witness:
  "collections (addDocuments True example_db ''t'' [example_chunk ''d''] [[1, 0, 0]]) ''t''
     = Some (unit_documents @ [example_document ''d'' [1, 0, 0]])
   \<and> ''u'' \<noteq> ''t''
   \<and> collections (addDocuments True example_db ''t'' [example_chunk ''d''] [[1, 0, 0]]) ''u'' = None
   \<and> initialized example_db"
proof -
  have init: "initialized example_db" by (simp add: example_db_def)
  have len: "length [[1, 0, 0 :: real]] = length [example_chunk ''d'']" by simp
  note app = addDocuments_only_appends
    [of True example_db "''t''" "[example_chunk ''d'']" "[[1, 0, 0]]"]
  from app init have same: "ensureInitialized example_db = example_db" by blast
  have doc: "make_document (example_chunk ''d'') (Some [1, 0, 0]) = example_document ''d'' [1, 0, 0]"
    by (simp add: make_document_def example_chunk_def example_document_def example_metadata_def
        or_zero_def)
  from app len have
    "map (\<lambda>i. make_document ([example_chunk ''d''] ! i) (nth_opt [[1, 0, 0]] i))
        [0 ..< length [example_chunk ''d'']]
      = map2 (\<lambda>chunk v. make_document chunk (Some v)) [example_chunk ''d''] [[1, 0, 0]]"
    by blast
  with app same doc have
    "collections (addDocuments True example_db ''t'' [example_chunk ''d''] [[1, 0, 0]]) ''t''
       = Some (unit_documents @ [example_document ''d'' [1, 0, 0]])"
    by (simp add: example_db_def)
  moreover have ne: "''u'' \<noteq> ''t''" by simp
  moreover from app ne same have
    "collections (addDocuments True example_db ''t'' [example_chunk ''d''] [[1, 0, 0]]) ''u'' = None"
    by (simp add: example_db_def)
  ultimately show ?thesis using init by blast
qed








lemma int_of_num_of_int: "int_of_num (of_int n) = Some n"
  by (simp add: int_of_num_def)





lemma int_prop_page: "int_prop (map_option (\<lambda>p. JNum (real_of_int p)) p) = p"
  by (cases p) (simp_all add: int_of_num_of_int)















section \<open>Properties of the chunker\<close>

lemma trim_alt: "trim s = trimR (trimL s)"
  by (simp add: trim_def trimL_def trimR_def)

lemma suffix_trimL: "suffix u v \<Longrightarrow> suffix (trimL u) (trimL v)"
proof -
  assume "suffix u v"
  then obtain x where v: "v = x @ u" by (auto simp: suffix_def)
  show ?thesis
  proof (cases "\<forall>c \<in> set x. is_ws c")
    case True
    then show ?thesis by (simp add: v trimL_def dropWhile_append2)
  next
    case False
    then have "dropWhile is_ws (x @ u) = dropWhile is_ws x @ u"
      by (auto simp: dropWhile_append1)
    moreover have "suffix (dropWhile is_ws u) u" by (rule suffix_dropWhile)
    ultimately show ?thesis
      unfolding v trimL_def by (simp add: suffix_appendI)
  qed
qed

lemma suffix_trimR: "suffix u v \<Longrightarrow> suffix (trimR u) (trimR v)"
proof -
  assume "suffix u v"
  then obtain x where v: "v = x @ u" by (auto simp: suffix_def)
  show ?thesis
  proof (cases "\<forall>c \<in> set u. is_ws c")
    case True
    then have "trimR u = []" by (simp add: trimR_def)
    then show ?thesis by simp
  next
    case False
    then have "dropWhile is_ws (rev u @ rev x) = dropWhile is_ws (rev u) @ rev x"
      by (auto simp: dropWhile_append1)
    then have "trimR v = x @ trimR u" by (simp add: v trimR_def)
    then show ?thesis by (simp add: suffix_def)
  qed
qed

lemma suffix_trim: "suffix u v \<Longrightarrow> suffix (trim u) (trim v)"
  by (simp add: trim_alt suffix_trimL suffix_trimR)

lemma prefix_trimR: "prefix (trimR u) (trimR (u @ r))"
proof (cases "\<forall>c \<in> set r. is_ws c")
  case True
  then have "dropWhile is_ws (rev r @ rev u) = dropWhile is_ws (rev u)"
    by (intro dropWhile_append2) simp
  then show ?thesis by (simp add: trimR_def)
next
  case False
  then have "dropWhile is_ws (rev r @ rev u) = dropWhile is_ws (rev r) @ rev u"
    by (auto simp: dropWhile_append1)
  then have "trimR (u @ r) = u @ trimR r" by (simp add: trimR_def)
  moreover have "suffix (dropWhile is_ws (rev u)) (rev u)" by (rule suffix_dropWhile)
  then have "prefix (trimR u) u" by (simp add: trimR_def suffix_to_prefix)
  ultimately show ?thesis by (simp add: prefix_prefix)
qed

lemma prefix_trim: "prefix (trim u) (trim (u @ r))"
proof (cases "\<forall>c \<in> set u. is_ws c")
  case True
  then have "trimL u = []" by (simp add: trimL_def)
  then show ?thesis by (simp add: trim_alt trimR_def)
next
  case False
  then have "trimL (u @ r) = trimL u @ r" by (auto simp: trimL_def dropWhile_append1)
  then show ?thesis by (simp add: trim_alt prefix_trimR)
qed

lemma length_trimR_le: "length (trimR u) \<le> length u"
  by (simp add: trimR_def length_dropWhile_le [of is_ws "rev u", simplified])

lemma length_trimL_le: "length (trimL u) \<le> length u"
  by (simp add: trimL_def length_dropWhile_le)

lemma length_trim_le: "length (trim u) \<le> length u"
  using length_trimR_le [of "trimL u"] length_trimL_le [of u] by (simp add: trim_alt)

lemma length_trimR_less: "u \<noteq> [] \<Longrightarrow> is_ws (last u) \<Longrightarrow> length (trimR u) < length u"
proof -
  assume "u \<noteq> []" "is_ws (last u)"
  then obtain c cs where r: "rev u = c # cs" and c: "is_ws c"
    by (cases "rev u") (auto simp: last_rev [symmetric] hd_rev)
  have "length (dropWhile is_ws cs) \<le> length cs" by (rule length_dropWhile_le)
  then have "length (dropWhile is_ws (rev u)) < length (rev u)" using r c by simp
  then show ?thesis by (simp add: trimR_def)
qed

lemma last_suffix: "suffix u v \<Longrightarrow> u \<noteq> [] \<Longrightarrow> last u = last v"
  by (auto simp: suffix_def)

lemma length_trim_less: "u \<noteq> [] \<Longrightarrow> is_ws (last u) \<Longrightarrow> length (trim u) < length u"
proof (cases "trimL u = []")
  case True
  assume "u \<noteq> []"
  with True show ?thesis by (simp add: trim_alt trimR_def)
next
  case False
  assume u: "u \<noteq> []" "is_ws (last u)"
  have "suffix (trimL u) u" unfolding trimL_def by (rule suffix_dropWhile)
  then have "last (trimL u) = last u" using False by (rule last_suffix)
  with False u have "length (trimR (trimL u)) < length (trimL u)"
    by (intro length_trimR_less) simp_all
  with length_trimL_le [of u] show ?thesis by (simp add: trim_alt)
qed

lemma break_point_bounds:
  "1 \<le> ov \<Longrightarrow> i \<le> ov \<Longrightarrow> 1 \<le> break_point c ov i \<and> break_point c ov i \<le> ov + 1"
proof (induction c ov i rule: break_point.induct)
  case (1 chunk overlapSize i)
  show ?case
  proof (cases "i > overlapSize - 50 \<and> i > 0")
    case False
    have "break_point chunk overlapSize i = overlapSize"
      by (subst break_point.simps) (simp only: False if_False)
    then show ?thesis using "1.prems" by simp
  next
    case True
    show ?thesis
    proof (cases "nth_opt chunk (nat i) = Some CHR '' ''")
      case found: True
      with True "1.prems" show ?thesis by (simp add: break_point.simps [of chunk overlapSize i])
    next
      case nf: False
      have "1 \<le> break_point chunk overlapSize (i - 1)
            \<and> break_point chunk overlapSize (i - 1) \<le> overlapSize + 1"
        using True nf "1.prems" by (intro "1.IH") simp_all
      with True nf show ?thesis by (simp add: break_point.simps [of chunk overlapSize i])
    qed
  qed
qed

lemma suffix_getOverlapText: "suffix (getOverlapText b ov) b"
  by (simp add: getOverlapText_def js_slice_from_def suffix_drop)

lemma getOverlapText_long:
  assumes "1 \<le> ov" "\<not> int (length b) \<le> ov"
  shows "getOverlapText b ov = drop (length b - nat (break_point b ov ov)) b"
proof -
  define bp where "bp = break_point b ov ov"
  have bp: "1 \<le> bp" "bp \<le> ov + 1"
    using break_point_bounds [OF assms(1), of ov b] by (simp_all add: bp_def)
  have "- bp < 0" using bp by simp
  then have "js_rel (- bp) (length b) = nat (max (int (length b) + - bp) 0)"
    by (simp only: js_rel_def if_True)
  also have "max (int (length b) + - bp) 0 = int (length b) - bp"
    using bp assms(2) by simp
  also have "nat (int (length b) - bp) = length b - nat bp"
    using bp by linarith
  finally show ?thesis
    using assms(2) by (simp add: getOverlapText_def js_slice_from_def bp_def)
qed

lemma length_getOverlapText:
  assumes "1 \<le> ov"
  shows "int (length (getOverlapText b ov)) \<le> ov + 1"
proof (cases "int (length b) \<le> ov")
  case True
  then show ?thesis by (simp add: getOverlapText_def)
next
  case False
  have bp: "1 \<le> break_point b ov ov" "break_point b ov ov \<le> ov + 1"
    using break_point_bounds [OF assms, of ov b] by simp_all
  have "length (drop (length b - nat (break_point b ov ov)) b) \<le> nat (break_point b ov ov)"
    by simp
  with bp show ?thesis unfolding getOverlapText_long [OF assms False] by linarith
qed

lemma getOverlapText_nonempty:
  assumes "1 \<le> ov" "b \<noteq> []"
  shows "getOverlapText b ov \<noteq> []"
proof (cases "int (length b) \<le> ov")
  case True
  then show ?thesis using assms by (simp add: getOverlapText_def)
next
  case False
  have bp: "1 \<le> break_point b ov ov" "break_point b ov ov \<le> ov + 1"
    using break_point_bounds [OF assms(1), of ov b] by simp_all
  have "length b - nat (break_point b ov ov) < length b"
    using bp assms(2) by (simp add: nat_less_iff)
  then show ?thesis unfolding getOverlapText_long [OF assms(1) False] by simp
qed

text \<open>The overlap between an emitted buffer and the buffer that follows it.\<close>

lemma overlap_between:
  assumes ov: "1 \<le> ov" and b: "b \<noteq> []" "is_ws (last b)"
    and next_buffer: "b' = getOverlapText b ov @ rest"
  shows "suffix (trim (getOverlapText b ov)) (trim b)
       \<and> prefix (trim (getOverlapText b ov)) (trim b')
       \<and> int (length (trim (getOverlapText b ov))) \<le> ov"
proof -
  let ?o = "getOverlapText b ov"
  have s: "suffix ?o b" by (rule suffix_getOverlapText)
  have ne: "?o \<noteq> []" using ov b(1) by (rule getOverlapText_nonempty)
  from s ne have "last ?o = last b" by (rule last_suffix)
  with ne b(2) have "length (trim ?o) < length ?o" by (intro length_trim_less) simp_all
  with length_getOverlapText [OF ov, of b] have "int (length (trim ?o)) \<le> ov" by simp
  then show ?thesis using s by (simp add: suffix_trim prefix_trim next_buffer)
qed

lemma adjacent_snoc:
  assumes "adjacent_ok ov bs" and "bs \<noteq> [] \<Longrightarrow> overlap_holds ov (last bs) c"
  shows "adjacent_ok ov (bs @ [c])"
  unfolding adjacent_ok_def
proof (intro allI impI)
  fix i assume i: "Suc i < length (bs @ [c])"
  show "overlap_holds ov ((bs @ [c]) ! i) ((bs @ [c]) ! Suc i)"
  proof (cases "Suc i < length bs")
    case True
    then show ?thesis using assms(1) by (simp add: adjacent_ok_def nth_append)
  next
    case False
    with i have eq: "Suc i = length bs" by simp
    then have ne: "bs \<noteq> []" by auto
    from eq have "i = length bs - 1" by simp
    then have "bs ! i = last bs" using ne by (simp add: last_conv_nth)
    moreover have "(bs @ [c]) ! i = bs ! i" using eq by (simp add: nth_append)
    moreover have "(bs @ [c]) ! Suc i = c" using eq by (simp add: nth_append)
    ultimately show ?thesis using assms(2) [OF ne] by simp
  qed
qed

lemma trim_nonempty: "trim cur \<noteq> [] \<Longrightarrow> cur \<noteq> []"
  by (auto simp: trim_def)

lemma pending_overlap:
  assumes "1 \<le> ov" "buffer_inv ov (bs, cur, n)" "bs \<noteq> []"
  shows "overlap_holds ov (last bs) (cur @ extra)"
proof -
  from assms(2,3) obtain rest where rest: "cur = getOverlapText (last bs) ov @ rest"
    and b: "last bs \<noteq> []" "is_ws (last (last bs))"
    by (auto simp: buffer_inv_def)
  have "cur @ extra = getOverlapText (last bs) ov @ (rest @ extra)" using rest by simp
  with overlap_between [OF assms(1) b] show ?thesis
    unfolding overlap_holds_def by blast
qed

lemma buffer_step_inv:
  assumes ov: "1 \<le> ov" and inv: "buffer_inv ov st" and s: "s \<noteq> []" "is_ws (last s)"
  shows "buffer_inv ov (buffer_step sz ov st s)"
proof -
  obtain bs cur n where st: "st = (bs, cur, n)" by (cases st)
  note inv' = inv [unfolded st]
  show ?thesis
  proof (cases "n + int (length s) > sz \<and> trim cur \<noteq> []")
    case True
    then have cur: "cur \<noteq> []" using trim_nonempty by blast
    with inv' have ws: "is_ws (last cur)" by (simp add: buffer_inv_def)
    have step: "buffer_step sz ov st s =
        (bs @ [cur], getOverlapText cur ov @ s,
         int (length (getOverlapText cur ov)) + int (length s))"
      using True by (simp add: buffer_step_def st Let_def)
    have "adjacent_ok ov (bs @ [cur])"
    proof (rule adjacent_snoc)
      show "adjacent_ok ov bs" using inv' by (simp add: buffer_inv_def)
      assume "bs \<noteq> []"
      then have "overlap_holds ov (last bs) (cur @ [])" using ov inv' by (intro pending_overlap)
      then show "overlap_holds ov (last bs) cur" by simp
    qed
    moreover have "\<forall>b \<in> set (bs @ [cur]). b \<noteq> [] \<and> is_ws (last b)"
      using inv' cur ws by (auto simp: buffer_inv_def)
    ultimately show ?thesis
      unfolding step using s by (simp add: buffer_inv_def)
  next
    case False
    then have step: "buffer_step sz ov st s = (bs, cur @ s, n + int (length s))"
      by (auto simp: buffer_step_def st Let_def)
    have "bs \<noteq> [] \<longrightarrow> (\<exists>rest. cur @ s = getOverlapText (last bs) ov @ rest)"
      using inv' by (auto simp: buffer_inv_def)
    then show ?thesis
      unfolding step using inv' s by (simp add: buffer_inv_def)
  qed
qed

lemma buffer_fold_inv:
  assumes "1 \<le> ov" "\<forall>s \<in> set ss. s \<noteq> [] \<and> is_ws (last s)" "buffer_inv ov st"
  shows "buffer_inv ov (fold (\<lambda>sentence st. buffer_step sz ov st sentence) ss st)"
  using assms(2,3)
proof (induction ss arbitrary: st)
  case Nil
  then show ?case by simp
next
  case (Cons s ss)
  have "buffer_inv ov (buffer_step sz ov st s)"
    using assms(1) Cons.prems by (intro buffer_step_inv) simp_all
  then show ?case using Cons.prems by (simp add: Cons.IH)
qed

lemma sentences_end_with_space:
  "\<forall>s \<in> set (splitIntoSentences text). s \<noteq> [] \<and> is_ws (last s)"
  by (auto simp: splitIntoSentences_def is_ws_def)

lemma chunk_step_buffers:
  "chunk_step sz ov (map trim bs, cur, n) s =
     (case buffer_step sz ov (bs, cur, n) s of (bs', cur', n') \<Rightarrow> (map trim bs', cur', n'))"
  by (simp add: chunk_step_def buffer_step_def Let_def)

lemma chunk_fold_buffers:
  "fold (\<lambda>sentence st. chunk_step sz ov st sentence) ss (map trim bs, cur, n) =
     (case fold (\<lambda>sentence st. buffer_step sz ov st sentence) ss (bs, cur, n) of
        (bs', cur', n') \<Rightarrow> (map trim bs', cur', n'))"
proof (induction ss arbitrary: bs cur n)
  case Nil
  show ?case by simp
next
  case (Cons s ss)
  obtain bs1 cur1 n1 where b: "buffer_step sz ov (bs, cur, n) s = (bs1, cur1, n1)"
    by (cases "buffer_step sz ov (bs, cur, n) s")
  then have "chunk_step sz ov (map trim bs, cur, n) s = (map trim bs1, cur1, n1)"
    by (simp add: chunk_step_buffers)
  with b show ?case by (simp add: Cons.IH)
qed

lemma chunkText_buffers:
  assumes "0 < or_default csz (chunkSize cfg)"
    and "or_default covl (chunkOverlap cfg) < or_default csz (chunkSize cfg)"
  shows "chunkText cfg text csz covl = Inr (map trim (emitted_buffers cfg text csz covl))"
proof -
  let ?sz = "or_default csz (chunkSize cfg)" and ?ov = "or_default covl (chunkOverlap cfg)"
  obtain bs cur n where b:
    "fold (\<lambda>sentence st. buffer_step ?sz ?ov st sentence) (splitIntoSentences text) ([], [], 0)
       = (bs, cur, n)"
    by (cases "fold (\<lambda>sentence st. buffer_step ?sz ?ov st sentence) (splitIntoSentences text)
                 ([], [], 0)")
  have "fold (\<lambda>sentence st. chunk_step ?sz ?ov st sentence) (splitIntoSentences text) ([], [], 0)
          = (map trim bs, cur, n)"
    using chunk_fold_buffers [of ?sz ?ov "splitIntoSentences text" "[]" "[]" 0] b by simp
  with b assms show ?thesis
    by (simp add: chunkText_def emitted_buffers_def Let_def)
qed

lemma emitted_buffers_adjacent:
  assumes "1 \<le> or_default covl (chunkOverlap cfg)"
  shows "adjacent_ok (or_default covl (chunkOverlap cfg)) (emitted_buffers cfg text csz covl)"
proof -
  let ?sz = "or_default csz (chunkSize cfg)" and ?ov = "or_default covl (chunkOverlap cfg)"
  obtain bs cur n where b:
    "fold (\<lambda>sentence st. buffer_step ?sz ?ov st sentence) (splitIntoSentences text) ([], [], 0)
       = (bs, cur, n)"
    by (cases "fold (\<lambda>sentence st. buffer_step ?sz ?ov st sentence) (splitIntoSentences text)
                 ([], [], 0)")
  have "buffer_inv ?ov ([], [], 0)" by (simp add: buffer_inv_def adjacent_ok_def)
  then have inv: "buffer_inv ?ov (bs, cur, n)"
    using buffer_fold_inv [OF assms sentences_end_with_space, of "([], [], 0)" "?sz" "text"] b by simp
  have "adjacent_ok ?ov (if trim cur \<noteq> [] then bs @ [cur] else bs)"
  proof (cases "trim cur \<noteq> []")
    case False
    then show ?thesis using inv by (simp add: buffer_inv_def)
  next
    case True
    have "adjacent_ok ?ov (bs @ [cur])"
    proof (rule adjacent_snoc)
      show "adjacent_ok ?ov bs" using inv by (simp add: buffer_inv_def)
      assume "bs \<noteq> []"
      then have "overlap_holds ?ov (last bs) (cur @ [])" using assms inv by (intro pending_overlap)
      then show "overlap_holds ?ov (last bs) cur" by simp
    qed
    with True show ?thesis by simp
  qed
  with b show ?thesis by (simp add: emitted_buffers_def Let_def)
qed

lemma trimR_last: "trimR u \<noteq> [] \<Longrightarrow> \<not> is_ws (last (trimR u))"
proof -
  assume ne: "trimR u \<noteq> []"
  then have "dropWhile is_ws (rev u) \<noteq> []" by (simp add: trimR_def)
  then have "\<not> is_ws (hd (dropWhile is_ws (rev u)))" by (rule hd_dropWhile)
  then show ?thesis using ne by (simp add: trimR_def last_rev)
qed

lemma trim_last: "trim x \<noteq> [] \<Longrightarrow> \<not> is_ws (last (trim x))"
  by (simp add: trim_alt trimR_last)

lemma sentences_end_sentence: "\<forall>s \<in> set (splitIntoSentences text). ends_sentence s"
proof
  fix s assume "s \<in> set (splitIntoSentences text)"
  then obtain x where x: "trim x \<noteq> []" and s: "s = trim x @ '' ''"
    by (auto simp: splitIntoSentences_def)
  have "trim x = butlast (trim x) @ [last (trim x)]" using x by simp
  then have "s = butlast (trim x) @ [last (trim x), CHR '' '']" using s by simp
  moreover have "\<not> is_ws (last (trim x))" using x by (rule trim_last)
  ultimately show "ends_sentence s" unfolding ends_sentence_def by blast
qed

lemma ends_sentence_append: "ends_sentence s \<Longrightarrow> ends_sentence (x @ s)"
proof -
  assume "ends_sentence s"
  then obtain u c where "s = u @ [c, CHR '' '']" "\<not> is_ws c" by (auto simp: ends_sentence_def)
  then have "x @ s = (x @ u) @ [c, CHR '' '']" "\<not> is_ws c" by simp_all
  then show ?thesis unfolding ends_sentence_def by blast
qed

lemma buffer_step_shape:
  assumes "shape_inv st" "ends_sentence s"
  shows "shape_inv (buffer_step sz ov st s)"
proof -
  obtain bs cur n where st: "st = (bs, cur, n)" by (cases st)
  show ?thesis
  proof (cases "n + int (length s) > sz \<and> trim cur \<noteq> []")
    case True
    then have "cur \<noteq> []" using trim_nonempty by blast
    with assms(1) have "ends_sentence cur" by (simp add: shape_inv_def st)
    moreover have "buffer_step sz ov st s =
        (bs @ [cur], getOverlapText cur ov @ s,
         int (length (getOverlapText cur ov)) + int (length s))"
      using True by (simp add: buffer_step_def st Let_def)
    ultimately show ?thesis
      using assms by (simp add: shape_inv_def st ends_sentence_append)
  next
    case False
    then have "buffer_step sz ov st s = (bs, cur @ s, n + int (length s))"
      by (auto simp: buffer_step_def st Let_def)
    then show ?thesis
      using assms by (simp add: shape_inv_def st ends_sentence_append)
  qed
qed

lemma buffer_fold_shape:
  assumes "\<forall>s \<in> set ss. ends_sentence s" "shape_inv st"
  shows "shape_inv (fold (\<lambda>sentence st. buffer_step sz ov st sentence) ss st)"
  using assms
proof (induction ss arbitrary: st)
  case Nil
  then show ?case by simp
next
  case (Cons s ss)
  have "shape_inv (buffer_step sz ov st s)"
    using Cons.prems by (intro buffer_step_shape) simp_all
  then show ?case using Cons.prems by (simp add: Cons.IH)
qed

lemma emitted_buffers_shape:
  "\<forall>b \<in> set (emitted_buffers cfg input csz covl). ends_sentence b"
proof -
  let ?sz = "or_default csz (chunkSize cfg)" and ?ov = "or_default covl (chunkOverlap cfg)"
  obtain bs cur n where b:
    "fold (\<lambda>sentence st. buffer_step ?sz ?ov st sentence) (splitIntoSentences input) ([], [], 0)
       = (bs, cur, n)"
    by (cases "fold (\<lambda>sentence st. buffer_step ?sz ?ov st sentence) (splitIntoSentences input)
                 ([], [], 0)")
  have init: "shape_inv ([], [], 0)" by (simp add: shape_inv_def)
  have "shape_inv (fold (\<lambda>sentence st. buffer_step ?sz ?ov st sentence)
                     (splitIntoSentences input) ([], [], 0))"
    using sentences_end_sentence init by (rule buffer_fold_shape)
  then have inv: "shape_inv (bs, cur, n)" by (simp only: b)
  have "cur \<noteq> []" if "trim cur \<noteq> []" using that by (rule trim_nonempty)
  with inv b show ?thesis by (auto simp: emitted_buffers_def Let_def shape_inv_def)
qed

lemma break_point_ge_2:
  "2 \<le> ov \<Longrightarrow> 2 \<le> break_point c ov i"
proof (induction c ov i rule: break_point.induct)
  case (1 chunk overlapSize i)
  show ?case
  proof (cases "i > overlapSize - 50 \<and> i > 0")
    case False
    have "break_point chunk overlapSize i = overlapSize"
      by (subst break_point.simps) (simp only: False if_False)
    then show ?thesis using "1.prems" by simp
  next
    case True
    show ?thesis
    proof (cases "nth_opt chunk (nat i) = Some CHR '' ''")
      case found: True
      with True "1.prems" show ?thesis by (simp add: break_point.simps [of chunk overlapSize i])
    next
      case nf: False
      have "2 \<le> break_point chunk overlapSize (i - 1)"
        using True nf "1.prems" by (intro "1.IH") simp_all
      with True nf show ?thesis by (simp add: break_point.simps [of chunk overlapSize i])
    qed
  qed
qed

lemma trim_nonempty_if: "c \<in> set u \<Longrightarrow> \<not> is_ws c \<Longrightarrow> trim u \<noteq> []"
proof -
  assume c: "c \<in> set u" "\<not> is_ws c"
  then have "dropWhile is_ws u \<noteq> []" by (auto simp: dropWhile_eq_Nil_conv)
  then have "\<not> is_ws (hd (dropWhile is_ws u))" by (rule hd_dropWhile)
  moreover have "hd (dropWhile is_ws u) \<in> set (rev (dropWhile is_ws u))"
    using \<open>dropWhile is_ws u \<noteq> []\<close> by simp
  ultimately have "dropWhile is_ws (rev (dropWhile is_ws u)) \<noteq> []"
    by (auto simp: dropWhile_eq_Nil_conv)
  then show ?thesis by (simp add: trim_def)
qed

lemma overlap_nonempty:
  assumes "2 \<le> ov" "ends_sentence b"
  shows "trim (getOverlapText b ov) \<noteq> []"
proof -
  from assms(2) obtain u c where b: "b = u @ [c, CHR '' '']" and c: "\<not> is_ws c"
    by (auto simp: ends_sentence_def)
  have "c \<in> set (getOverlapText b ov)"
  proof (cases "int (length b) \<le> ov")
    case True
    then show ?thesis using b by (simp add: getOverlapText_def)
  next
    case False
    have ov: "1 \<le> ov" using assms(1) by simp
    have "2 \<le> break_point b ov ov" using assms(1) by (rule break_point_ge_2)
    then have "length b - nat (break_point b ov ov) \<le> length u" using b by simp
    then have "drop (length b - nat (break_point b ov ov)) b
                 = drop (length b - nat (break_point b ov ov)) u @ [c, CHR '' '']"
      by (simp add: b)
    then show ?thesis unfolding getOverlapText_long [OF ov False] by simp
  qed
  then show ?thesis using c by (rule trim_nonempty_if)
qed

text \<open>
  Claim C2, amended. Let the size and the overlap that \<open>chunkText\<close> works with (the
  arguments, or the configured values where an argument is absent or 0) satisfy
  \<open>1 \<le> overlap < size\<close>. Then the passages are the trimmed buffers the loop emits,
  and for every passage that has a successor the overlap text the code carries over,
  \<open>getOverlapText\<close> of the emitted buffer, trimmed, is a tail of the passage, a prefix of
  the next passage, and at most \<open>overlap\<close> characters long. When the overlap is at
  least 2 this text is not empty.
\<close>

theorem overlap_is_tail_and_prefix:
  assumes size_ok: "0 < or_default csz (chunkSize cfg)"
    and overlap_ok: "or_default covl (chunkOverlap cfg) < or_default csz (chunkSize cfg)"
    and positive: "1 \<le> or_default covl (chunkOverlap cfg)"
    and passages: "chunkText cfg text csz covl = Inr passages"
    and i: "Suc i < length passages"
  shows "passages = map trim (emitted_buffers cfg text csz covl)
    \<and> suffix (trim (getOverlapText (emitted_buffers cfg text csz covl ! i)
                 (or_default covl (chunkOverlap cfg)))) (passages ! i)
    \<and> prefix (trim (getOverlapText (emitted_buffers cfg text csz covl ! i)
                 (or_default covl (chunkOverlap cfg)))) (passages ! Suc i)
    \<and> int (length (trim (getOverlapText (emitted_buffers cfg text csz covl ! i)
                 (or_default covl (chunkOverlap cfg))))) \<le> or_default covl (chunkOverlap cfg)
    \<and> (2 \<le> or_default covl (chunkOverlap cfg) \<longrightarrow>
          trim (getOverlapText (emitted_buffers cfg text csz covl ! i)
                 (or_default covl (chunkOverlap cfg))) \<noteq> [])"
proof -
  let ?bs = "emitted_buffers cfg text csz covl"
  have eq: "passages = map trim ?bs"
    using chunkText_buffers [OF size_ok overlap_ok, of "text"] passages by simp
  then have len: "Suc i < length ?bs" using i by simp
  then have "overlap_holds (or_default covl (chunkOverlap cfg)) (?bs ! i) (?bs ! Suc i)"
    using emitted_buffers_adjacent [OF positive] by (simp add: adjacent_ok_def)
  moreover have "?bs ! i \<in> set ?bs" using len by simp
  then have "ends_sentence (?bs ! i)"
    using emitted_buffers_shape by blast
  ultimately show ?thesis using eq len by (simp add: overlap_holds_def overlap_nonempty)
qed

theorem overlap_is_tail_and_prefix_witness:
  "0 < or_default (Some 6) (chunkSize default_config)
   \<and> or_default (Some 2) (chunkOverlap default_config) < or_default (Some 6) (chunkSize default_config)
   \<and> 2 \<le> or_default (Some 2) (chunkOverlap default_config)
   \<and> chunkText default_config ''A. B. C.'' (Some 6) (Some 2) = Inr [''A. B.'', ''B. C.'']
   \<and> Suc 0 < length [''A. B.'', ''B. C.'']
   \<and> trim (getOverlapText (emitted_buffers default_config ''A. B. C.'' (Some 6) (Some 2) ! 0)
        (or_default (Some 2) (chunkOverlap default_config))) = ''B.''
   \<and> suffix ''B.'' ([''A. B.'', ''B. C.''] ! 0)
   \<and> prefix ''B.'' ([''A. B.'', ''B. C.''] ! Suc 0)
   \<and> int (length ''B.'') \<le> or_default (Some 2) (chunkOverlap default_config)"
proof -
  have h1: "0 < or_default (Some 6) (chunkSize default_config)"
    by (simp add: or_default_def default_config_def)
  have h2: "or_default (Some 2) (chunkOverlap default_config)
              < or_default (Some 6) (chunkSize default_config)"
    by (simp add: or_default_def default_config_def)
  have h3: "1 \<le> or_default (Some 2) (chunkOverlap default_config)"
    by (simp add: or_default_def default_config_def)
  have h4: "2 \<le> or_default (Some 2) (chunkOverlap default_config)"
    by (simp add: or_default_def default_config_def)
  have p: "chunkText default_config ''A. B. C.'' (Some 6) (Some 2) = Inr [''A. B.'', ''B. C.'']"
    by code_simp
  have i: "Suc 0 < length [''A. B.'', ''B. C.'']" by simp
  have t: "trim (getOverlapText (emitted_buffers default_config ''A. B. C.'' (Some 6) (Some 2) ! 0)
        (or_default (Some 2) (chunkOverlap default_config))) = ''B.''"
    by code_simp
  note overlap = overlap_is_tail_and_prefix [OF h1 h2 h3 p i, unfolded t]
  from overlap have "suffix ''B.'' ([''A. B.'', ''B. C.''] ! 0)" by blast
  moreover from overlap have "prefix ''B.'' ([''A. B.'', ''B. C.''] ! Suc 0)" by blast
  moreover from overlap
  have "int (length ''B.'') \<le> or_default (Some 2) (chunkOverlap default_config)" by blast
  ultimately show ?thesis using h1 h2 h4 p i t by blast
qed

text \<open>
  With the size 6 and the overlap \<open>- 2\<close>, which \<open>chunkText\<close> accepts, the text carried
  over from the first buffer is \<open>aa.\<close>: it is a tail of the first passage and a prefix
  of the second, and its length 3 is not bounded by the overlap size.
\<close>

theorem overlap_negative_counterexample:
  "or_default (Some 6) (chunkSize default_config) = 6
   \<and> or_default (Some (- 2)) (chunkOverlap default_config) = - 2
   \<and> chunkText default_config ''Aaaa. Bbbb. Cccc.'' (Some 6) (Some (- 2))
       = Inr [''Aaaa.'', ''aa. Bbbb.'', ''. Bbbb. Cccc.'']
   \<and> emitted_buffers default_config ''Aaaa. Bbbb. Cccc.'' (Some 6) (Some (- 2))
       = [''Aaaa. '', ''aa. Bbbb. '', ''. Bbbb. Cccc. '']
   \<and> trim (getOverlapText ''Aaaa. '' (- 2)) = ''aa.''
   \<and> \<not> int (length (trim (getOverlapText ''Aaaa. '' (- 2)))) \<le> - 2"
  by code_simp

text \<open>
  Claim C6. \<open>chunkText\<close> replaces an argument that is 0 by the configured value before
  it checks the sizes. With the default configuration, the size 100 and the overlap 0
  are rejected, because the overlap becomes 200; and the size 0 is accepted, because it
  becomes 1000.
\<close>

theorem chunkText_zero_arguments:
  "chunkText default_config ''A. B. C.'' (Some 100) (Some 0) = Inl OverlapNotLessThanSize
   \<and> chunkText default_config ''A. B. C.'' (Some 0) (Some 5) = Inr [''A. B. C.'']"
  by code_simp

section \<open>Properties of the embedding service\<close>



























section \<open>Properties of the initialization of the embedding model\<close>

lemma nth_opt_middle: "nth_opt (before @ x # rest) (length before) = Some x"
  by (simp add: nth_opt_def)

lemma step_calling:
  assumes "w_callers w = before @ Calling # rest"
  shows "caller_step (length before) fulfilled w =
     (if w_initialized w then w\<lparr>w_callers := before @ Returned # rest\<rparr>
      else w\<lparr>w_callers := before @ AwaitingImport # rest\<rparr>)"
  using assms by (simp add: caller_step_def nth_opt_middle)

lemma step_import:
  assumes "w_callers w = before @ AwaitingImport # rest"
  shows "caller_step (length before) True w =
     w\<lparr>w_loads := w_loads w + 1, w_callers := before @ AwaitingPipeline # rest\<rparr>"
  using assms by (simp add: caller_step_def nth_opt_middle)

lemma step_pipeline:
  assumes "w_callers w = before @ AwaitingPipeline # rest"
  shows "caller_step (length before) True w =
     w\<lparr>w_initialized := True, w_callers := before @ Returned # rest\<rparr>"
  using assms by (simp add: caller_step_def nth_opt_middle)

lemma step_returned:
  assumes "w_callers w = before @ Returned # rest"
  shows "caller_step (length before) fulfilled w = w"
  using assms by (simp add: caller_step_def nth_opt_middle)

lemma run_one_caller:
  assumes "w_callers w = before @ Calling # rest"
  shows "run_schedule [(length before, True), (length before, True), (length before, True)] w =
     (if w_initialized w then w\<lparr>w_callers := before @ Returned # rest\<rparr>
      else w\<lparr>w_initialized := True, w_loads := w_loads w + 1,
             w_callers := before @ Returned # rest\<rparr>)"
proof (cases "w_initialized w")
  case True
  let ?w1 = "w\<lparr>w_callers := before @ Returned # rest\<rparr>"
  have 1: "caller_step (length before) True w = ?w1"
    using step_calling [OF assms] True by simp
  have 2: "caller_step (length before) True ?w1 = ?w1"
    by (rule step_returned) simp
  have "run_schedule [(length before, True), (length before, True), (length before, True)] w
      = caller_step (length before) True
          (caller_step (length before) True (caller_step (length before) True w))"
    by (simp add: run_schedule_def)
  also have "\<dots> = ?w1" by (simp only: 1 2)
  finally show ?thesis using True by simp
next
  case False
  let ?w1 = "w\<lparr>w_callers := before @ AwaitingImport # rest\<rparr>"
  let ?w2 = "?w1\<lparr>w_loads := w_loads ?w1 + 1, w_callers := before @ AwaitingPipeline # rest\<rparr>"
  let ?w3 = "?w2\<lparr>w_initialized := True, w_callers := before @ Returned # rest\<rparr>"
  have 1: "caller_step (length before) True w = ?w1"
    using step_calling [OF assms] False by simp
  have 2: "caller_step (length before) True ?w1 = ?w2"
    by (rule step_import) simp
  have 3: "caller_step (length before) True ?w2 = ?w3"
    by (rule step_pipeline) simp
  have "run_schedule [(length before, True), (length before, True), (length before, True)] w
      = caller_step (length before) True
          (caller_step (length before) True (caller_step (length before) True w))"
    by (simp add: run_schedule_def)
  also have "\<dots> = ?w3" by (simp only: 1 2 3)
  also have "?w3 = w\<lparr>w_initialized := True, w_loads := w_loads w + 1,
             w_callers := before @ Returned # rest\<rparr>"
    by simp
  finally show ?thesis using False by simp
qed

lemma run_schedule_append:
  "run_schedule (xs @ ys) w = run_schedule ys (run_schedule xs w)"
  by (simp add: run_schedule_def)

lemma run_later_callers:
  "w_initialized w \<Longrightarrow> w_callers w = before @ replicate m Calling \<Longrightarrow>
   run_schedule (concat (map (\<lambda>k. [(k, True), (k, True), (k, True)])
                   [length before ..< length before + m])) w
     = w\<lparr>w_callers := before @ replicate m Returned\<rparr>"
proof (induction m arbitrary: before w)
  case 0
  then show ?case by (simp add: run_schedule_def)
next
  case (Suc m)
  let ?w1 = "w\<lparr>w_callers := before @ Returned # replicate m Calling\<rparr>"
  have callers: "w_callers w = before @ Calling # replicate m Calling"
    using Suc.prems(2) by simp
  have one: "run_schedule [(length before, True), (length before, True), (length before, True)] w = ?w1"
    using run_one_caller [OF callers] Suc.prems(1) by simp
  have range: "[length before ..< length before + Suc m]
                 = length before # [length (before @ [Returned]) ..< length (before @ [Returned]) + m]"
    by (simp add: upt_conv_Cons)
  have rest: "run_schedule (concat (map (\<lambda>k. [(k, True), (k, True), (k, True)])
                   [length (before @ [Returned]) ..< length (before @ [Returned]) + m])) ?w1
     = ?w1\<lparr>w_callers := (before @ [Returned]) @ replicate m Returned\<rparr>"
    using Suc.prems(1) by (intro Suc.IH) simp_all
  have "run_schedule (concat (map (\<lambda>k. [(k, True), (k, True), (k, True)])
                   [length before ..< length before + Suc m])) w
      = run_schedule (concat (map (\<lambda>k. [(k, True), (k, True), (k, True)])
                   [length (before @ [Returned]) ..< length (before @ [Returned]) + m]))
          (run_schedule [(length before, True), (length before, True), (length before, True)] w)"
    unfolding range by (simp add: run_schedule_def)
  also have "\<dots> = ?w1\<lparr>w_callers := (before @ [Returned]) @ replicate m Returned\<rparr>"
    unfolding one by (rule rest)
  finally show ?case by simp
qed

lemma run_one_after_another:
  assumes "0 < n"
  shows "run_schedule (one_after_another n) (fresh_world n)
     = \<lparr>w_initialized = True, w_loads = 1, w_callers = replicate n Returned\<rparr>"
proof -
  obtain m where n: "n = Suc m" using assms by (cases n) auto
  let ?w1 = "\<lparr>w_initialized = True, w_loads = 1, w_callers = [Returned] @ replicate m Calling\<rparr>"
  have first: "run_schedule [(0, True), (0, True), (0, True)] (fresh_world n) = ?w1"
    using run_one_caller [of "fresh_world n" "[]" "replicate m Calling"]
    by (simp add: fresh_world_def n)
  have rest: "run_schedule (concat (map (\<lambda>k. [(k, True), (k, True), (k, True)])
                   [length [Returned] ..< length [Returned] + m])) ?w1
     = ?w1\<lparr>w_callers := [Returned] @ replicate m Returned\<rparr>"
    by (intro run_later_callers) simp_all
  have "one_after_another n = [(0, True), (0, True), (0, True)]
          @ concat (map (\<lambda>k. [(k, True), (k, True), (k, True)])
                      [length [Returned] ..< length [Returned] + m])"
    by (simp add: one_after_another_def n upt_conv_Cons)
  then have "run_schedule (one_after_another n) (fresh_world n)
      = run_schedule (concat (map (\<lambda>k. [(k, True), (k, True), (k, True)])
                   [length [Returned] ..< length [Returned] + m]))
          (run_schedule [(0, True), (0, True), (0, True)] (fresh_world n))"
    by (simp only: run_schedule_append)
  also have "\<dots> = ?w1\<lparr>w_callers := [Returned] @ replicate m Returned\<rparr>"
    unfolding first by (rule rest)
  finally show ?thesis by (simp add: n)
qed

text \<open>
  Claim C9, amended. No model is loaded before a caller asks for it. A caller that finds
  the service initialized returns at once and loads nothing. When callers run one after
  another, each to its end before the next starts, the model is loaded exactly once. A
  caller that finds the service not initialized goes on to the import, whether another
  caller is loading the model or not, and loads the model when its import has come.
\<close>

theorem initialize_lazy_and_idempotent:
  "w_loads (fresh_world n) = 0
   \<and> (w_initialized w \<and> nth_opt (w_callers w) k = Some Calling \<longrightarrow>
        caller_step k fulfilled w = w\<lparr>w_callers := (w_callers w)[k := Returned]\<rparr>)
   \<and> (0 < n \<longrightarrow>
        run_schedule (one_after_another n) (fresh_world n)
          = \<lparr>w_initialized = True, w_loads = 1, w_callers = replicate n Returned\<rparr>)
   \<and> (\<not> w_initialized w \<and> nth_opt (w_callers w) k = Some Calling \<longrightarrow>
        caller_step k fulfilled w = w\<lparr>w_callers := (w_callers w)[k := AwaitingImport]\<rparr>)
   \<and> (nth_opt (w_callers w) k = Some AwaitingImport \<longrightarrow>
        w_loads (caller_step k True w) = w_loads w + 1)"
proof (intro conjI impI)
  show "w_loads (fresh_world n) = 0" by (simp add: fresh_world_def)
next
  assume "w_initialized w \<and> nth_opt (w_callers w) k = Some Calling"
  then show "caller_step k fulfilled w = w\<lparr>w_callers := (w_callers w)[k := Returned]\<rparr>"
    by (simp add: caller_step_def)
next
  assume "0 < n"
  then show "run_schedule (one_after_another n) (fresh_world n)
          = \<lparr>w_initialized = True, w_loads = 1, w_callers = replicate n Returned\<rparr>"
    by (rule run_one_after_another)
next
  assume "\<not> w_initialized w \<and> nth_opt (w_callers w) k = Some Calling"
  then show "caller_step k fulfilled w = w\<lparr>w_callers := (w_callers w)[k := AwaitingImport]\<rparr>"
    by (simp add: caller_step_def)
next
  assume "nth_opt (w_callers w) k = Some AwaitingImport"
  then show "w_loads (caller_step k True w) = w_loads w + 1"
    by (simp add: caller_step_def)
qed

theorem initialize_witness:
  "w_initialized \<lparr>w_initialized = True, w_loads = 1, w_callers = [Returned, Calling]\<rparr>
   \<and> nth_opt (w_callers \<lparr>w_initialized = True, w_loads = 1, w_callers = [Returned, Calling]\<rparr>) 1
       = Some Calling
   \<and> caller_step 1 True \<lparr>w_initialized = True, w_loads = 1, w_callers = [Returned, Calling]\<rparr>
       = \<lparr>w_initialized = True, w_loads = 1, w_callers = [Returned, Returned]\<rparr>
   \<and> (0 :: nat) < 3
   \<and> run_schedule (one_after_another 3) (fresh_world 3)
       = \<lparr>w_initialized = True, w_loads = 1, w_callers = [Returned, Returned, Returned]\<rparr>
   \<and> \<not> w_initialized \<lparr>w_initialized = False, w_loads = 1, w_callers = [AwaitingPipeline, Calling]\<rparr>
   \<and> nth_opt (w_callers \<lparr>w_initialized = False, w_loads = 1,
          w_callers = [AwaitingPipeline, Calling]\<rparr>) 1 = Some Calling
   \<and> caller_step 1 True \<lparr>w_initialized = False, w_loads = 1, w_callers = [AwaitingPipeline, Calling]\<rparr>
       = \<lparr>w_initialized = False, w_loads = 1, w_callers = [AwaitingPipeline, AwaitingImport]\<rparr>
   \<and> nth_opt (w_callers \<lparr>w_initialized = False, w_loads = 1,
          w_callers = [AwaitingPipeline, AwaitingImport]\<rparr>) 1 = Some AwaitingImport
   \<and> w_loads (caller_step 1 True
         \<lparr>w_initialized = False, w_loads = 1, w_callers = [AwaitingPipeline, AwaitingImport]\<rparr>) = 2"
proof -
  let ?w = "\<lparr>w_initialized = True, w_loads = 1, w_callers = [Returned, Calling]\<rparr>"
  let ?u = "\<lparr>w_initialized = False, w_loads = 1, w_callers = [AwaitingPipeline, Calling]\<rparr>"
  let ?v = "\<lparr>w_initialized = False, w_loads = 1, w_callers = [AwaitingPipeline, AwaitingImport]\<rparr>"
  have h: "w_initialized ?w \<and> nth_opt (w_callers ?w) 1 = Some Calling"
    by (simp add: nth_opt_def)
  have hu: "\<not> w_initialized ?u \<and> nth_opt (w_callers ?u) 1 = Some Calling"
    by (simp add: nth_opt_def)
  have hv: "nth_opt (w_callers ?v) 1 = Some AwaitingImport"
    by (simp add: nth_opt_def)
  have "caller_step 1 True ?w = ?w\<lparr>w_callers := (w_callers ?w)[1 := Returned]\<rparr>"
    using initialize_lazy_and_idempotent [of 3 ?w 1 True] h by blast
  then have 1: "caller_step 1 True ?w
       = \<lparr>w_initialized = True, w_loads = 1, w_callers = [Returned, Returned]\<rparr>"
    by simp
  have "run_schedule (one_after_another 3) (fresh_world 3)
       = \<lparr>w_initialized = True, w_loads = 1, w_callers = replicate 3 Returned\<rparr>"
    using initialize_lazy_and_idempotent [of 3 ?w 1 True] by simp
  then have 2: "run_schedule (one_after_another 3) (fresh_world 3)
       = \<lparr>w_initialized = True, w_loads = 1, w_callers = [Returned, Returned, Returned]\<rparr>"
    by (simp add: numeral_3_eq_3)
  have "caller_step 1 True ?u = ?u\<lparr>w_callers := (w_callers ?u)[1 := AwaitingImport]\<rparr>"
    using initialize_lazy_and_idempotent [of 3 ?u 1 True] hu by blast
  then have 3: "caller_step 1 True ?u = ?v" by simp
  have "w_loads (caller_step 1 True ?v) = w_loads ?v + 1"
    using initialize_lazy_and_idempotent [of 3 ?v 1] hv by blast
  then have 4: "w_loads (caller_step 1 True ?v) = 2" by simp
  show ?thesis using h hu hv 1 2 3 4 by simp
qed

text \<open>
  Two callers that both start before the first load has ended: each reads
  \<open>this.initialized\<close> as false, and each calls \<open>pipeline\<close>. The model is loaded twice.
\<close>

theorem concurrent_callers_counterexample:
  "run_schedule [(0, True), (1, True), (0, True), (1, True), (0, True), (1, True)] (fresh_world 2)
     = \<lparr>w_initialized = True, w_loads = 2, w_callers = [Returned, Returned]\<rparr>"
  by code_simp

section \<open>Properties of the query\<close>

text \<open>
  A response that the cache holds for the question and the collection is returned as it
  is, whatever the threshold and the limit of the request are.
\<close>

lemma query_served_from_cache:
  assumes "s_ensureInitialized loaded svc = Inr svc1"
    and "getSearchResult cache (q_question request) (q_collection request) = Some cachedResult"
  shows "query cfg loaded elapsed svc cache request
           = (svc1, cache, Inr (cachedResult\<lparr>processingTime := elapsed\<rparr>))"
  using assms by (simp add: query_def)

lemma passage_text_nonempty: "passage_text result \<noteq> []"
  by (simp add: passage_text_def)

lemma join_empty_iff: "\<forall>x \<in> set xs. x \<noteq> [] \<Longrightarrow> join sep xs = [] \<longleftrightarrow> xs = []"
  by (induction sep xs rule: join.induct) simp_all

lemma query_run:
  assumes init: "s_ensureInitialized loaded svc = Inr svc1"
    and fresh: "getSearchResult cache (q_question request) (q_collection request) = None"
    and embedding: "generateQueryEmbedding loaded (s_embeddings svc1) cache (q_question request)
                      = (emb, cache1, Inr queryEmbedding)"
    and found: "search cfg (s_vectorDb svc1) (q_collection request) queryEmbedding
                  (Some (or_default (q_limit request) (maxResults cfg))) = (db, Inr searchResults)"
    and filtered: "filtered = filter (\<lambda>result. r_score result
                    \<ge> (case q_threshold request of Some t \<Rightarrow> t | None \<Rightarrow> similarityThreshold cfg))
                      searchResults"
    and response: "response =
           \<lparr>answer = (if filtered = [] then no_content_message
                      else join separator (map passage_text filtered)),
            sources = filtered, processingTime = elapsed\<rparr>"
  shows "query cfg loaded elapsed svc cache request
      = (svc1\<lparr>s_embeddings := emb, s_vectorDb := db\<rparr>,
         setSearchResult cache1 (q_question request) (q_collection request) response,
         Inr response)"
proof -
  have "join separator (map passage_text filtered) = [] \<longleftrightarrow> filtered = []"
    using join_empty_iff [of "map passage_text filtered" separator]
    by (simp add: passage_text_nonempty)
  then show ?thesis
    using init fresh embedding found
    by (simp add: query_def Let_def response filtered)
qed

text \<open>
  Claim C5, amended. Let the service initialize, let the cache hold no response for the
  question and the collection, and let the embedding of the question and the search
  succeed. Then \<open>query\<close> returns a response whose sources are the search results with a
  score of at least the threshold, in the order of the search; the threshold is the one
  of the request if it has one and the configured one otherwise. The answer is the
  passages of the sources with their headers, joined by the separator, if there is a
  source, and the fixed message if there is none. The response is in the cache
  afterwards.
\<close>

theorem query_sources_and_answer:
  assumes init: "s_ensureInitialized loaded svc = Inr svc1"
    and fresh: "getSearchResult cache (q_question request) (q_collection request) = None"
    and embedding: "generateQueryEmbedding loaded (s_embeddings svc1) cache (q_question request)
                      = (emb, cache1, Inr queryEmbedding)"
    and found: "search cfg (s_vectorDb svc1) (q_collection request) queryEmbedding
                  (Some (or_default (q_limit request) (maxResults cfg))) = (db, Inr searchResults)"
  shows "\<exists>svc' cache' response.
      query cfg loaded elapsed svc cache request = (svc', cache', Inr response)
    \<and> sources response
        = filter (\<lambda>result. r_score result
                    \<ge> (case q_threshold request of Some t \<Rightarrow> t | None \<Rightarrow> similarityThreshold cfg))
            searchResults
    \<and> answer response
        = (if sources response = [] then no_content_message
           else join separator (map passage_text (sources response)))
    \<and> getSearchResult cache' (q_question request) (q_collection request) = Some response"
proof -
  define filtered where "filtered = filter (\<lambda>result. r_score result
                    \<ge> (case q_threshold request of Some t \<Rightarrow> t | None \<Rightarrow> similarityThreshold cfg))
                      searchResults"
  define response where
    "response = \<lparr>answer = (if filtered = [] then no_content_message
                      else join separator (map passage_text filtered)),
                  sources = filtered, processingTime = elapsed\<rparr>"
  have run: "query cfg loaded elapsed svc cache request
      = (svc1\<lparr>s_embeddings := emb, s_vectorDb := db\<rparr>,
         setSearchResult cache1 (q_question request) (q_collection request) response,
         Inr response)"
    using init fresh embedding found filtered_def response_def by (rule query_run)
  have cached: "getSearchResult
       (setSearchResult cache1 (q_question request) (q_collection request) response)
       (q_question request) (q_collection request) = Some response"
    by (simp add: getSearchResult_def setSearchResult_def)
  have "sources response = filtered" by (simp add: response_def)
  moreover have "answer response
        = (if sources response = [] then no_content_message
           else join separator (map passage_text (sources response)))"
    by (simp add: response_def)
  ultimately show ?thesis
    using run cached unfolding filtered_def by blast
qed

lemma example_init:
  "s_ensureInitialized (Some example_extractor) example_service
     = Inr \<lparr>s_embeddings = \<lparr>e_extractor = Some example_extractor, e_initialized = True\<rparr>,
            s_vectorDb = example_db, s_initialized = True\<rparr>"
  by (simp add: s_ensureInitialized_def s_initialize_def e_initialize_def example_service_def
      new_service_def)

lemma example_fresh: "getSearchResult empty_cache ''q'' ''t'' = None"
  by (simp add: getSearchResult_def empty_cache_def)

lemma example_fresh_with_question: "getSearchResult cache_with_question ''q'' ''t'' = None"
  by (simp add: getSearchResult_def empty_cache_def cache_with_question_def setEmbedding_def)

lemma example_embedding_computed:
  "generateQueryEmbedding (Some example_extractor)
     \<lparr>e_extractor = Some example_extractor, e_initialized = True\<rparr> empty_cache ''q''
   = (\<lparr>e_extractor = Some example_extractor, e_initialized = True\<rparr>,
      setEmbedding empty_cache ''q'' [1], Inr [1])"
  by (simp add: generateQueryEmbedding_def e_ensureInitialized_def getEmbedding_def
      call_extractor_def empty_cache_def example_extractor_def)

lemma example_embedding_cached:
  "generateQueryEmbedding (Some example_extractor)
     \<lparr>e_extractor = Some example_extractor, e_initialized = True\<rparr> cache_with_question ''q''
   = (\<lparr>e_extractor = Some example_extractor, e_initialized = True\<rparr>,
      cache_with_question, Inr [1, 0, 0])"
  by (simp add: generateQueryEmbedding_def e_ensureInitialized_def getEmbedding_def
      cache_with_question_def setEmbedding_def)

lemma example_search_mismatch:
  "search default_config example_db ''t'' [1] (Some 5)
   = (example_db,
      Inr [to_result (example_document ''a'' [1, 0, 0], 0),
           to_result (example_document ''b'' [0, 1, 0], 0),
           to_result (example_document ''c'' [0, 0, 1], 0)])"
  by (simp add: search_def ensureInitialized_def example_db_def unit_documents_def
      example_document_def cosineSimilarity_def js_sort_def by_score_desc_def js_slice_def
      js_rel_def Let_def)

lemma example_search_unit:
  "search default_config example_db ''t'' [1, 0, 0] (Some 5)
   = (example_db,
      Inr [to_result (example_document ''a'' [1, 0, 0], 1),
           to_result (example_document ''b'' [0, 1, 0], 0),
           to_result (example_document ''c'' [0, 0, 1], 0)])"
  by (simp add: search_def ensureInitialized_def example_db_def unit_documents_def
      example_document_def cosineSimilarity_def js_sort_def by_score_desc_def js_slice_def
      js_rel_def Let_def)

text \<open>
  A query whose question matches no record: the sources are empty, and the answer is
  the fixed message, not the empty concatenation of the passages.
\<close>

theorem query_no_match_counterexample:
  "snd (snd (query default_config (Some example_extractor) 0 example_service empty_cache
               example_request))
     = Inr \<lparr>answer = no_content_message, sources = [], processingTime = 0\<rparr>
   \<and> join separator (map passage_text []) = []
   \<and> no_content_message \<noteq> join separator (map passage_text [])"
proof -
  let ?emb = "\<lparr>e_extractor = Some example_extractor, e_initialized = True\<rparr>"
  let ?svc1 = "\<lparr>s_embeddings = ?emb, s_vectorDb = example_db, s_initialized = True\<rparr>"
  let ?results = "[to_result (example_document ''a'' [1, 0, 0], 0),
           to_result (example_document ''b'' [0, 1, 0], 0),
           to_result (example_document ''c'' [0, 0, 1], 0)]"
  let ?response = "\<lparr>answer = no_content_message, sources = [], processingTime = 0\<rparr>"
  have fresh: "getSearchResult empty_cache (q_question example_request)
                 (q_collection example_request) = None"
    using example_fresh by (simp add: example_request_def)
  have embedding: "generateQueryEmbedding (Some example_extractor) (s_embeddings ?svc1)
                     empty_cache (q_question example_request)
                   = (?emb, setEmbedding empty_cache ''q'' [1], Inr [1])"
    using example_embedding_computed by (simp add: example_request_def)
  have found: "search default_config (s_vectorDb ?svc1) (q_collection example_request) [1]
                 (Some (or_default (q_limit example_request) (maxResults default_config)))
               = (example_db, Inr ?results)"
    using example_search_mismatch
    by (simp add: example_request_def or_default_def default_config_def)
  have filtered: "[] = filter (\<lambda>result. r_score result
                    \<ge> (case q_threshold example_request of
                          Some t \<Rightarrow> t | None \<Rightarrow> similarityThreshold default_config)) ?results"
    by (simp add: example_request_def default_config_def to_result_def)
  have response: "?response =
           \<lparr>answer = (if [] = ([] :: SearchResult list) then no_content_message
                      else join separator (map passage_text [])),
            sources = [], processingTime = 0\<rparr>"
    by simp
  have "query default_config (Some example_extractor) 0 example_service empty_cache example_request
      = (?svc1\<lparr>s_embeddings := ?emb, s_vectorDb := example_db\<rparr>,
         setSearchResult (setEmbedding empty_cache ''q'' [1]) (q_question example_request)
           (q_collection example_request) ?response,
         Inr ?response)"
    using example_init fresh embedding found filtered response by (rule query_run)
  then show ?thesis by (simp add: no_content_message_def)
qed

theorem query_sources_and_answer_witness:
  "s_ensureInitialized (Some example_extractor) example_service
     = Inr \<lparr>s_embeddings = \<lparr>e_extractor = Some example_extractor, e_initialized = True\<rparr>,
            s_vectorDb = example_db, s_initialized = True\<rparr>
   \<and> getSearchResult cache_with_question ''q'' ''t'' = None
   \<and> search default_config example_db ''t'' [1, 0, 0] (Some 5)
       = (example_db,
          Inr [to_result (example_document ''a'' [1, 0, 0], 1),
               to_result (example_document ''b'' [0, 1, 0], 0),
               to_result (example_document ''c'' [0, 0, 1], 0)])
   \<and> (\<exists>svc' cache' response.
        query default_config (Some example_extractor) 0 example_service cache_with_question
          example_request = (svc', cache', Inr response)
        \<and> sources response = [to_result (example_document ''a'' [1, 0, 0], 1)]
        \<and> answer response = passage_text (to_result (example_document ''a'' [1, 0, 0], 1))
        \<and> getSearchResult cache' ''q'' ''t'' = Some response)"
proof -
  let ?emb = "\<lparr>e_extractor = Some example_extractor, e_initialized = True\<rparr>"
  let ?svc1 = "\<lparr>s_embeddings = ?emb, s_vectorDb = example_db, s_initialized = True\<rparr>"
  let ?results = "[to_result (example_document ''a'' [1, 0, 0], 1),
           to_result (example_document ''b'' [0, 1, 0], 0),
           to_result (example_document ''c'' [0, 0, 1], 0)]"
  have fresh: "getSearchResult cache_with_question (q_question example_request)
                 (q_collection example_request) = None"
    using example_fresh_with_question by (simp add: example_request_def)
  have embedding: "generateQueryEmbedding (Some example_extractor) (s_embeddings ?svc1)
                     cache_with_question (q_question example_request)
                   = (?emb, cache_with_question, Inr [1, 0, 0])"
    using example_embedding_cached by (simp add: example_request_def)
  have found: "search default_config (s_vectorDb ?svc1) (q_collection example_request) [1, 0, 0]
                 (Some (or_default (q_limit example_request) (maxResults default_config)))
               = (example_db, Inr ?results)"
    using example_search_unit
    by (simp add: example_request_def or_default_def default_config_def)
  obtain svc' cache' response where
    run: "query default_config (Some example_extractor) 0 example_service cache_with_question
            example_request = (svc', cache', Inr response)"
    and src: "sources response
        = filter (\<lambda>result. r_score result
                    \<ge> (case q_threshold example_request of
                          Some t \<Rightarrow> t | None \<Rightarrow> similarityThreshold default_config)) ?results"
    and ans: "answer response
        = (if sources response = [] then no_content_message
           else join separator (map passage_text (sources response)))"
    and cached: "getSearchResult cache' (q_question example_request)
                   (q_collection example_request) = Some response"
    using query_sources_and_answer [OF example_init fresh embedding found, of 0] by blast
  have src': "sources response = [to_result (example_document ''a'' [1, 0, 0], 1)]"
    unfolding src by (simp add: example_request_def default_config_def to_result_def)
  have "answer response = passage_text (to_result (example_document ''a'' [1, 0, 0], 1))"
    unfolding ans src' by simp
  moreover have "getSearchResult cache' ''q'' ''t'' = Some response"
    using cached by (simp add: example_request_def)
  ultimately show ?thesis
    using example_init example_fresh_with_question example_search_unit run src' by blast
qed

end
